theory Spec2Isabelle
  imports
    Main
    "HOL-Library.AList"
    "HOL-Library.Char_ord"
    "HOL-Library.List_Lexorder"
    "HOL-Library.Product_Lexorder"
    "HOL-Library.Multiset"
begin

section \<open>Exam scheduler: parsers, date selection, allocation engine, validator\<close>

text \<open>
  A shallow embedding of \<^verbatim>\<open>app/parsers.py\<close>, \<^verbatim>\<open>app/scheduler.py\<close>,
  \<^verbatim>\<open>app/validators.py\<close> and the parts of \<^verbatim>\<open>app/models.py\<close> they construct.

  Conventions.
  \<^item> A Python \<^verbatim>\<open>str\<close> is a \<open>string\<close>: the character with code \<open>n\<close> stands for the
    code point \<open>n\<close>, so the model covers the strings of code points below 256. Among
    these the decimal digits are \<^verbatim>\<open>0\<close> to \<^verbatim>\<open>9\<close> only.
  \<^item> A Python \<^verbatim>\<open>dict\<close> is an association list kept in insertion order: a store is
    \<open>AList.update\<close> (an existing key keeps its position, a new key goes last), a lookup is
    \<open>map_of\<close>, iteration is the list order, and the dict is falsy exactly when the list is
    empty.
  \<^item> Every exception the code can raise is a value \<open>Inl e\<close> of the result type.
\<close>

datatype error =
    ValueError          \<comment> \<open>raised by \<^verbatim>\<open>datetime.strptime\<close>\<close>
  | OverflowError       \<comment> \<open>raised by \<^verbatim>\<open>int / int\<close> when the quotient exceeds the float range\<close>
  | IndexError          \<comment> \<open>raised by indexing an empty list\<close>
  | ModelValidationError \<comment> \<open>raised by a pydantic model constructor whose \<^verbatim>\<open>Field\<close> constraints fail\<close>

subsection \<open>Strings\<close>

text \<open>
  \<^verbatim>\<open>str.isspace\<close> on the code points below 256: TAB, LF, VT, FF, CR (9 to 13), the
  separators 0x1C to 0x1F and the space (28 to 32), NEXT LINE (0x85 = 133) and the
  no-break space (0xA0 = 160).
\<close>

definition is_space :: "char \<Rightarrow> bool" where
  "is_space c =
     (let n = (of_char c :: nat)
      in (9 \<le> n \<and> n \<le> 13) \<or> (28 \<le> n \<and> n \<le> 32) \<or> n = 133 \<or> n = 160)"

text \<open>\<^verbatim>\<open>s.strip()\<close>\<close>

definition strip :: "string \<Rightarrow> string" where
  "strip s = rev (dropWhile is_space (rev (dropWhile is_space s)))"

definition digit_val :: "char \<Rightarrow> nat option" where
  "digit_val c = (let n = (of_char c :: nat) in if 48 \<le> n \<and> n \<le> 57 then Some (n - 48) else None)"

definition is_digit :: "char \<Rightarrow> bool" where
  "is_digit c = (digit_val c \<noteq> None)"

definition in_range :: "char \<Rightarrow> char \<Rightarrow> char \<Rightarrow> bool" where
  "in_range lo hi c = ((of_char lo :: nat) \<le> of_char c \<and> (of_char c :: nat) \<le> of_char hi)"

text \<open>\<^verbatim>\<open>int(s)\<close> on a matched group: decimal digits, a leading blank skipped.\<close>

definition py_int :: "string \<Rightarrow> nat" where
  "py_int s = foldl (\<lambda>a c. case digit_val c of Some v \<Rightarrow> 10 * a + v | None \<Rightarrow> a) 0 s"

text \<open>\<^verbatim>\<open>sep.join(xs)\<close>\<close>

fun join :: "string \<Rightarrow> string list \<Rightarrow> string" where
  "join sep [] = []"
| "join sep [x] = x"
| "join sep (x # y # ys) = x @ sep @ join sep (y # ys)"

text \<open>\<^verbatim>\<open>str(n)\<close> for a non-negative integer.\<close>

fun string_of_nat :: "nat \<Rightarrow> string" where
  "string_of_nat n =
     (if n < 10 then [''0123456789'' ! n]
      else string_of_nat (n div 10) @ [''0123456789'' ! (n mod 10)])"

subsection \<open>Dates: \<^verbatim>\<open>datetime.strptime(s, '%d-%m-%y')\<close>\<close>

text \<open>
  A \<open>datetime\<close> is (year, month, day, microsecond of the day); Python compares datetimes
  chronologically, which is the lexicographic order of these tuples.
  \<^verbatim>\<open>datetime.max\<close> is 9999-12-31 23:59:59.999999.
\<close>

type_synonym datetime = "int \<times> int \<times> int \<times> int"

definition datetime_max :: datetime where
  "datetime_max = (9999, 12, 31, 86399999999)"

definition is_leap :: "nat \<Rightarrow> bool" where
  "is_leap y = (y mod 4 = 0 \<and> (y mod 100 \<noteq> 0 \<or> y mod 400 = 0))"

definition days_in_month :: "nat \<Rightarrow> nat \<Rightarrow> nat" where
  "days_in_month y m =
     (if m = 2 \<and> is_leap y then 29
      else [0, 31, 28, 31, 30, 31, 30, 31, 31, 30, 31, 30, 31] ! m)"

definition days_before_year :: "nat \<Rightarrow> nat" where
  "days_before_year y = (y - 1) * 365 + (y - 1) div 4 - (y - 1) div 100 + (y - 1) div 400"

definition days_before_month :: "nat \<Rightarrow> nat \<Rightarrow> nat" where
  "days_before_month y m = sum_list (map (days_in_month y) [1..<m])"

text \<open>\<^verbatim>\<open>date.toordinal()\<close>\<close>

definition toordinal :: "datetime \<Rightarrow> int" where
  "toordinal dt = (case dt of (y, m, d, us) \<Rightarrow>
     int (days_before_year (nat y) + days_before_month (nat y) (nat m)) + d)"

text \<open>
  The regular expression that \<^verbatim>\<open>_strptime\<close> compiles for \<^verbatim>\<open>'%d-%m-%y'\<close> is
  \<^verbatim>\<open>(?P<d>3[0-1]|[1-2]\d|0[1-9]|[1-9]| [1-9])-(?P<m>1[0-2]|0[1-9]|[1-9])-(?P<y>\d\d)\<close>.
  Each piece returns its possible matches (matched text, rest) in the order the
  backtracking matcher tries them.
\<close>

definition two_chars :: "(char \<Rightarrow> bool) \<Rightarrow> (char \<Rightarrow> bool) \<Rightarrow> string \<Rightarrow> (string \<times> string) list" where
  "two_chars p q s = (case s of a # b # r \<Rightarrow> if p a \<and> q b then [([a, b], r)] else [] | _ \<Rightarrow> [])"

definition one_char :: "(char \<Rightarrow> bool) \<Rightarrow> string \<Rightarrow> (string \<times> string) list" where
  "one_char p s = (case s of a # r \<Rightarrow> if p a then [([a], r)] else [] | _ \<Rightarrow> [])"

definition re_lit :: "char \<Rightarrow> string \<Rightarrow> string list" where
  "re_lit c s = (case s of a # r \<Rightarrow> if a = c then [r] else [] | _ \<Rightarrow> [])"

definition re_d :: "string \<Rightarrow> (string \<times> string) list" where
  "re_d s =
     two_chars (\<lambda>c. c = CHR ''3'') (in_range CHR ''0'' CHR ''1'') s
     @ two_chars (in_range CHR ''1'' CHR ''2'') is_digit s
     @ two_chars (\<lambda>c. c = CHR ''0'') (in_range CHR ''1'' CHR ''9'') s
     @ one_char (in_range CHR ''1'' CHR ''9'') s
     @ two_chars (\<lambda>c. c = CHR '' '') (in_range CHR ''1'' CHR ''9'') s"

definition re_m :: "string \<Rightarrow> (string \<times> string) list" where
  "re_m s =
     two_chars (\<lambda>c. c = CHR ''1'') (in_range CHR ''0'' CHR ''2'') s
     @ two_chars (\<lambda>c. c = CHR ''0'') (in_range CHR ''1'' CHR ''9'') s
     @ one_char (in_range CHR ''1'' CHR ''9'') s"

definition re_y :: "string \<Rightarrow> (string \<times> string) list" where
  "re_y s = two_chars is_digit is_digit s"

definition strptime_match :: "string \<Rightarrow> (string \<times> string \<times> string \<times> string) list" where
  "strptime_match s =
     concat (map (\<lambda>(d, r1).
       concat (map (\<lambda>r2.
         concat (map (\<lambda>(m, r3).
           concat (map (\<lambda>r4.
             map (\<lambda>(y, r5). (d, m, y, r5)) (re_y r4))
           (re_lit CHR ''-'' r3)))
         (re_m r2)))
       (re_lit CHR ''-'' r1)))
     (re_d s))"

text \<open>
  \<^verbatim>\<open>re.match\<close> takes the first match; text left over is "unconverted data remains";
  a two-digit year up to 68 is 20xx, otherwise 19xx; a day beyond the month's length is
  "day is out of range for month". All three are \<^verbatim>\<open>ValueError\<close>.
\<close>

definition strptime :: "string \<Rightarrow> error + datetime" where
  "strptime s =
     (case strptime_match s of
        [] \<Rightarrow> Inl ValueError
      | (d, m, y, rest) # _ \<Rightarrow>
          if rest \<noteq> [] then Inl ValueError
          else
            let year = (if py_int y \<le> 68 then py_int y + 2000 else py_int y + 1900);
                month = py_int m;
                day = py_int d
            in if day > days_in_month year month then Inl ValueError
               else Inr (int year, int month, int day, 0))"

subsection \<open>\<^verbatim>\<open>parsers.parse_dates\<close>\<close>

definition parse_dates :: "string list \<Rightarrow> string list" where
  "parse_dates date_strings =
     (if date_strings = [] then []
      else
        let parsed = map (\<lambda>date_str.
              case strptime (strip date_str) of
                Inr dt \<Rightarrow> (dt, strip date_str)
              | Inl e \<Rightarrow> (datetime_max, strip date_str)) date_strings
        in map snd (sort_key fst parsed))"

subsection \<open>\<^verbatim>\<open>scheduler\<close>: date selection\<close>

definition STUDENTS_PER_LAB :: nat where "STUDENTS_PER_LAB = 25"
definition FORENOON_CAPACITY :: nat where "FORENOON_CAPACITY = 13"
definition AFTERNOON_CAPACITY :: nat where "AFTERNOON_CAPACITY = 12"
definition LABS_PER_DAY :: nat where "LABS_PER_DAY = 5"
definition DAILY_CAPACITY :: nat where "DAILY_CAPACITY = STUDENTS_PER_LAB * LABS_PER_DAY"

definition FORENOON_TIME :: string where "FORENOON_TIME = ''09:30 am - 12:30 pm''"
definition AFTERNOON_TIME :: string where "AFTERNOON_TIME = ''01:30 pm - 04:30 pm''"

definition parse_date :: "string \<Rightarrow> error + datetime" where
  "parse_date date_str = strptime date_str"

definition date_diff_days :: "string \<Rightarrow> string \<Rightarrow> error + int" where
  "date_diff_days date1 date2 =
     (case parse_date date1 of
        Inl e \<Rightarrow> Inl e
      | Inr d1 \<Rightarrow>
          (case parse_date date2 of
             Inl e \<Rightarrow> Inl e
           | Inr d2 \<Rightarrow> Inr (abs (toordinal d2 - toordinal d1))))"

text \<open>
  The required number of days, \<^verbatim>\<open>math.ceil(student_count / DAILY_CAPACITY)\<close>, as
  \<^verbatim>\<open>select_optimal_dates\<close> and \<^verbatim>\<open>calculate_required_dates\<close> compute it. Python divides
  through a float: the
  quotient is correctly rounded, and the division raises \<^verbatim>\<open>OverflowError\<close> when the
  rounded quotient leaves the float range, that is from \<open>2^1024 - 2^970\<close> on. For
  \<open>\<bar>student_count\<bar> < 125 * 2^47\<close> the ceiling of the rounded quotient is the exact
  ceiling, which is what this definition returns; above that bound the float is coarser
  than the integers and the value here is the exact ceiling, not the float's.
\<close>

definition required_days_of :: "int \<Rightarrow> error + int" where
  "required_days_of student_count =
     (if \<bar>student_count\<bar> \<ge> int DAILY_CAPACITY * (2 ^ 1024 - 2 ^ 970) then Inl OverflowError
      else Inr (- ((- student_count) div int DAILY_CAPACITY)))"

text \<open>
  The explanation message, as the values its f-string interpolates (the average gap is
  printed from the list of gaps with a float format, which is not modelled).
\<close>

datatype message =
    NoDatesProvided
  | NoStudentsToSchedule
  | OnlyDatesAvailable nat int int
  | SelectedOneDate int
  | GapConstraintRelaxed nat
  | SelectedDates nat int "int list"

text \<open>\<^verbatim>\<open>sorted(available_dates, key=lambda d: parse_date(d))\<close>: every key is computed
  first (the first failure is raised), then the sort is stable.\<close>

fun parse_keys :: "string list \<Rightarrow> error + (datetime \<times> string) list" where
  "parse_keys [] = Inr []"
| "parse_keys (d # ds) =
     (case parse_date d of
        Inl e \<Rightarrow> Inl e
      | Inr k \<Rightarrow>
          (case parse_keys ds of
             Inl e \<Rightarrow> Inl e
           | Inr ks \<Rightarrow> Inr ((k, d) # ks)))"

definition sorted_by_date :: "string list \<Rightarrow> error + string list" where
  "sorted_by_date available_dates =
     (case parse_keys available_dates of
        Inl e \<Rightarrow> Inl e
      | Inr ks \<Rightarrow> Inr (map snd (sort_key fst ks)))"

text \<open>\<^verbatim>\<open>xs[:k]\<close> for an integer \<open>k\<close> of either sign.\<close>

definition slice_to :: "'a list \<Rightarrow> int \<Rightarrow> 'a list" where
  "slice_to xs k = (if 0 \<le> k then take (nat k) xs else take (nat (int (length xs) + k)) xs)"

text \<open>The greedy walk \<^verbatim>\<open>for date in sorted_dates[1:]\<close>, with \<open>selected\<close> as the loop state.\<close>

fun gap_walk :: "int \<Rightarrow> int \<Rightarrow> string list \<Rightarrow> string list \<Rightarrow> error + string list" where
  "gap_walk required_days min_gap_days selected [] = Inr selected"
| "gap_walk required_days min_gap_days selected (d # rest) =
     (if int (length selected) \<ge> required_days then Inr selected
      else if selected = [] then Inl IndexError
      else
        (case date_diff_days (last selected) d of
           Inl e \<Rightarrow> Inl e
         | Inr gap \<Rightarrow>
             if gap \<ge> min_gap_days
             then gap_walk required_days min_gap_days (selected @ [d]) rest
             else gap_walk required_days min_gap_days selected rest))"

text \<open>\<^verbatim>\<open>for i in range(1, len(selected)): gaps.append(date_diff_days(selected[i-1], selected[i]))\<close>\<close>

fun consecutive_gaps :: "string list \<Rightarrow> error + int list" where
  "consecutive_gaps (a # b # rest) =
     (case date_diff_days a b of
        Inl e \<Rightarrow> Inl e
      | Inr g \<Rightarrow>
          (case consecutive_gaps (b # rest) of
             Inl e \<Rightarrow> Inl e
           | Inr gs \<Rightarrow> Inr (g # gs)))"
| "consecutive_gaps xs = Inr []"

text \<open>The end of \<^verbatim>\<open>select_optimal_dates\<close>, from "Calculate actual gaps for message" to the
  final return; both the branch \<^verbatim>\<open>min_gap_days <= 1\<close> and a successful greedy walk reach it.\<close>

definition finish_selection :: "string list \<Rightarrow> int \<Rightarrow> error + string list \<times> message" where
  "finish_selection selected student_count =
     (case consecutive_gaps selected of
        Inl e \<Rightarrow> Inl e
      | Inr gaps \<Rightarrow> Inr (selected, SelectedDates (length selected) student_count gaps))"

definition select_optimal_dates :: "string list \<Rightarrow> int \<Rightarrow> int \<Rightarrow> error + string list \<times> message" where
  "select_optimal_dates available_dates student_count min_gap_days =
     (if available_dates = [] then Inr ([], NoDatesProvided)
      else
        (case required_days_of student_count of
           Inl e \<Rightarrow> Inl e
         | Inr required_days \<Rightarrow>
             if required_days = 0 then Inr ([], NoStudentsToSchedule)
             else
               (case sorted_by_date available_dates of
                  Inl e \<Rightarrow> Inl e
                | Inr sorted_dates \<Rightarrow>
                    if int (length sorted_dates) < required_days
                    then Inr (sorted_dates,
                              OnlyDatesAvailable (length sorted_dates) required_days student_count)
                    else if required_days = 1
                    then (case sorted_dates of
                            [] \<Rightarrow> Inl IndexError
                          | d0 # ds \<Rightarrow> Inr ([d0], SelectedOneDate student_count))
                    else if min_gap_days \<le> 1
                    then finish_selection (slice_to sorted_dates required_days) student_count
                    else
                      (case sorted_dates of
                         [] \<Rightarrow> Inl IndexError
                       | d0 # ds \<Rightarrow>
                           (case gap_walk required_days min_gap_days [d0] ds of
                              Inl e \<Rightarrow> Inl e
                            | Inr selected \<Rightarrow>
                                if int (length selected) < required_days
                                then Inr (slice_to sorted_dates required_days,
                                          GapConstraintRelaxed
                                            (length (slice_to sorted_dates required_days)))
                                else finish_selection selected student_count)))))"

subsection \<open>\<^verbatim>\<open>models\<close>: the records the scheduler builds\<close>

record examiner =
  examiner_id :: string
  examiner_name :: string

record time_slot =
  time :: string
  session :: string
  capacity :: nat
  register_numbers :: "string list"

record lab_schedule =
  date :: string
  subject :: "string option"
  lab :: string
  slots :: "time_slot list"
  internal_examiner :: "examiner option"
  external_examiner :: "examiner option"
  semester :: "string option"
  batch :: "string option"

text \<open>
  The cohort structure reaches the scheduler as plain dicts read with \<^verbatim>\<open>.get(key, default)\<close>;
  a key that is absent is represented by the default the code supplies (\<^verbatim>\<open>''\<close> or \<^verbatim>\<open>[]\<close>).
\<close>

record batch_dict =
  batch_name :: string
  batch_register_numbers :: "string list"

record semester_dict =
  semester_name :: string
  batches :: "batch_dict list"

text \<open>
  The pydantic constructors check the \<^verbatim>\<open>Field\<close> constraints of \<^verbatim>\<open>models.py\<close>:
  \<^verbatim>\<open>TimeSlot\<close>: session matches \<^verbatim>\<open>^(forenoon|afternoon)$\<close>, \<open>0 \<le> capacity \<le> 13\<close>;
  \<^verbatim>\<open>Examiner\<close>: id and name of length at least 1;
  \<^verbatim>\<open>LabSchedule\<close>: lab of length at least 1, exactly two slots, examiners valid when given.
\<close>

definition TimeSlot :: "string \<Rightarrow> string \<Rightarrow> nat \<Rightarrow> string list \<Rightarrow> error + time_slot" where
  "TimeSlot t s c regs =
     (if (s = ''forenoon'' \<or> s = ''afternoon'') \<and> c \<le> 13
      then Inr \<lparr>time = t, session = s, capacity = c, register_numbers = regs\<rparr>
      else Inl ModelValidationError)"

definition valid_examiner :: "examiner \<Rightarrow> bool" where
  "valid_examiner e = (examiner_id e \<noteq> [] \<and> examiner_name e \<noteq> [])"

definition valid_examiner_opt :: "examiner option \<Rightarrow> bool" where
  "valid_examiner_opt eo = (case eo of None \<Rightarrow> True | Some e \<Rightarrow> valid_examiner e)"

definition LabSchedule ::
  "string \<Rightarrow> string option \<Rightarrow> string \<Rightarrow> time_slot list \<Rightarrow> examiner option \<Rightarrow> examiner option
   \<Rightarrow> string option \<Rightarrow> string option \<Rightarrow> error + lab_schedule" where
  "LabSchedule d subj l sl ie ee sem bat =
     (if l \<noteq> [] \<and> length sl = 2 \<and> valid_examiner_opt ie \<and> valid_examiner_opt ee
      then Inr \<lparr>date = d, subject = subj, lab = l, slots = sl,
                internal_examiner = ie, external_examiner = ee,
                semester = sem, batch = bat\<rparr>
      else Inl ModelValidationError)"

subsection \<open>\<^verbatim>\<open>scheduler\<close>: the allocation engine\<close>

definition create_time_slot :: "string \<Rightarrow> string list \<Rightarrow> error + time_slot" where
  "create_time_slot sess regs =
     (if sess = ''forenoon''
      then TimeSlot FORENOON_TIME ''forenoon'' (length regs) regs
      else TimeSlot AFTERNOON_TIME ''afternoon'' (length regs) regs)"

text \<open>\<^verbatim>\<open>students[:13]\<close> and \<^verbatim>\<open>students[13:25]\<close>\<close>

definition split_into_slots :: "string list \<Rightarrow> string list \<times> string list" where
  "split_into_slots students =
     (let forenoon = take FORENOON_CAPACITY students;
          afternoon = take AFTERNOON_CAPACITY (drop FORENOON_CAPACITY students)
      in (forenoon, afternoon))"

definition create_lab_schedule ::
  "string \<Rightarrow> string \<Rightarrow> string list \<Rightarrow> examiner option \<Rightarrow> examiner option
   \<Rightarrow> string option \<Rightarrow> string option \<Rightarrow> string option \<Rightarrow> error + lab_schedule" where
  "create_lab_schedule d l students ie ee sem bat subj =
     (case split_into_slots students of
        (forenoon_students, afternoon_students) \<Rightarrow>
          (case create_time_slot ''forenoon'' forenoon_students of
             Inl e \<Rightarrow> Inl e
           | Inr fs \<Rightarrow>
               (case create_time_slot ''afternoon'' afternoon_students of
                  Inl e \<Rightarrow> Inl e
                | Inr as \<Rightarrow> LabSchedule d subj l [fs, as] ie ee sem bat)))"

text \<open>
  The lookup \<^verbatim>\<open>reg_to_sem_batch\<close>: register number to (semester name, semester name
  followed by batch name); a register number listed twice keeps the last pair stored.
\<close>

definition build_reg_to_sem_batch ::
  "semester_dict list \<Rightarrow> (string \<times> string \<times> string) list" where
  "build_reg_to_sem_batch semesters =
     fold (\<lambda>sem m.
       fold (\<lambda>b m.
         fold (\<lambda>reg_no m.
           AList.update reg_no (semester_name sem, semester_name sem @ batch_name b) m)
           (batch_register_numbers b) m)
         (batches sem) m)
       semesters []"

text \<open>The tally \<^verbatim>\<open>batch_counts[sem_batch] = batch_counts.get(sem_batch, 0) + 1\<close> over a chunk.\<close>

fun count_batches ::
  "(string \<times> string \<times> string) list \<Rightarrow> string list \<Rightarrow> ((string \<times> string) \<times> nat) list
   \<Rightarrow> ((string \<times> string) \<times> nat) list" where
  "count_batches r2sb [] batch_counts = batch_counts"
| "count_batches r2sb (reg_no # rest) batch_counts =
     (case map_of r2sb reg_no of
        None \<Rightarrow> count_batches r2sb rest batch_counts
      | Some sem_batch \<Rightarrow>
          count_batches r2sb rest
            (AList.update sem_batch
               ((case map_of batch_counts sem_batch of None \<Rightarrow> 0 | Some c \<Rightarrow> c) + 1)
               batch_counts))"

text \<open>\<^verbatim>\<open>max(items, key=lambda x: x[1])\<close>: a later item replaces the best so far only when its
  key is strictly greater.\<close>

fun max_by_count :: "'a \<times> nat \<Rightarrow> ('a \<times> nat) list \<Rightarrow> 'a \<times> nat" where
  "max_by_count best [] = best"
| "max_by_count best (x # xs) =
     (if snd x > snd best then max_by_count x xs else max_by_count best xs)"

text \<open>
  The block "Get semester/batch info" of \<^verbatim>\<open>allocate_students\<close>, which appears with the
  same text in both modes; it yields the pair (semester, batch) passed to
  \<^verbatim>\<open>create_lab_schedule\<close>.
\<close>

definition semester_batch_info ::
  "(string \<times> string \<times> string) list \<Rightarrow> string list \<Rightarrow> string option \<times> string option" where
  "semester_batch_info r2sb chunk =
     (if r2sb = [] then (None, None)
      else
        let batch_counts = count_batches r2sb chunk []
        in (case batch_counts of
              [] \<Rightarrow> (None, None)
            | item # items \<Rightarrow>
                (case fst (max_by_count item items) of
                   (sem, bat) \<Rightarrow>
                     if length batch_counts > 1
                     then (Some sem,
                           Some (join '', '' (sort (remdups (map (\<lambda>k. snd (fst k)) batch_counts)))))
                     else (Some sem, Some bat))))"

text \<open>
  The loop \<^verbatim>\<open>for lab_index, lab in enumerate(labs)\<close>, the same in both modes: \<open>students\<close> is
  the list the chunks are cut from (the date's own list, or the global list), and the loop
  state is \<open>(student_index, schedules)\<close>.
\<close>

fun lab_loop ::
  "examiner list \<Rightarrow> examiner list \<Rightarrow> (string \<times> string \<times> string) list \<Rightarrow> string
   \<Rightarrow> string option \<Rightarrow> string list \<Rightarrow> (nat \<times> string) list \<Rightarrow> nat \<Rightarrow> lab_schedule list
   \<Rightarrow> error + nat \<times> lab_schedule list" where
  "lab_loop ies ees r2sb d subj students [] student_index schedules =
     Inr (student_index, schedules)"
| "lab_loop ies ees r2sb d subj students ((lab_index, l) # rest) student_index schedules =
     (if student_index \<ge> length students then Inr (student_index, schedules)
      else
        let chunk_end = min (student_index + STUDENTS_PER_LAB) (length students);
            chunk = take (chunk_end - student_index) (drop student_index students)
        in if chunk \<noteq> [] then
             let internal_exam = (if ies \<noteq> [] then Some (ies ! (lab_index mod length ies)) else None);
                 external_exam = (if ees \<noteq> [] then Some (ees ! (lab_index mod length ees)) else None)
             in (case semester_batch_info r2sb chunk of
                   (sem, bat) \<Rightarrow>
                     (case create_lab_schedule d l chunk internal_exam external_exam sem bat subj of
                        Inl e \<Rightarrow> Inl e
                      | Inr schedule \<Rightarrow>
                          lab_loop ies ees r2sb d subj students rest chunk_end
                            (schedules @ [schedule])))
           else lab_loop ies ees r2sb d subj students rest student_index schedules)"

text \<open>\<^verbatim>\<open>enumerate(labs)\<close>\<close>

definition enumerate_list :: "'a list \<Rightarrow> (nat \<times> 'a) list" where
  "enumerate_list xs = zip [0..<length xs] xs"

text \<open>Date-keyed mode: \<^verbatim>\<open>for date in dates\<close> with the date's own list of students.\<close>

fun keyed_date_loop ::
  "examiner list \<Rightarrow> examiner list \<Rightarrow> (string \<times> string \<times> string) list \<Rightarrow> string list
   \<Rightarrow> (string \<times> string) list \<Rightarrow> (string \<times> string list) list \<Rightarrow> string list
   \<Rightarrow> lab_schedule list \<Rightarrow> error + lab_schedule list" where
  "keyed_date_loop ies ees r2sb labs date_subjects date_register_numbers [] schedules =
     Inr schedules"
| "keyed_date_loop ies ees r2sb labs date_subjects date_register_numbers (d # ds) schedules =
     (let date_students = (case map_of date_register_numbers d of None \<Rightarrow> [] | Some xs \<Rightarrow> xs);
          subj = map_of date_subjects d
      in (case lab_loop ies ees r2sb d subj date_students (enumerate_list labs) 0 schedules of
            Inl e \<Rightarrow> Inl e
          | Inr (student_index, schedules') \<Rightarrow>
              keyed_date_loop ies ees r2sb labs date_subjects date_register_numbers ds schedules'))"

text \<open>Sequential mode: \<^verbatim>\<open>for date in dates\<close> over the global list, with the running index.\<close>

fun sequential_date_loop ::
  "examiner list \<Rightarrow> examiner list \<Rightarrow> (string \<times> string \<times> string) list \<Rightarrow> string list
   \<Rightarrow> (string \<times> string) list \<Rightarrow> string list \<Rightarrow> string list \<Rightarrow> nat
   \<Rightarrow> lab_schedule list \<Rightarrow> error + lab_schedule list" where
  "sequential_date_loop ies ees r2sb labs date_subjects regs [] student_index schedules =
     Inr schedules"
| "sequential_date_loop ies ees r2sb labs date_subjects regs (d # ds) student_index schedules =
     (if student_index \<ge> length regs then Inr schedules
      else
        let subj = map_of date_subjects d
        in (case lab_loop ies ees r2sb d subj regs (enumerate_list labs) student_index schedules of
              Inl e \<Rightarrow> Inl e
            | Inr (student_index', schedules') \<Rightarrow>
                sequential_date_loop ies ees r2sb labs date_subjects regs ds
                  student_index' schedules'))"

text \<open>
  \<^verbatim>\<open>allocate_students\<close>. The optional arguments that default to \<^verbatim>\<open>None\<close> are passed as the
  empty list or dict the code replaces \<^verbatim>\<open>None\<close> with.
\<close>

definition allocate_students ::
  "string list \<Rightarrow> string list \<Rightarrow> string list \<Rightarrow> examiner list \<Rightarrow> examiner list
   \<Rightarrow> semester_dict list \<Rightarrow> (string \<times> string) list \<Rightarrow> (string \<times> string list) list
   \<Rightarrow> error + lab_schedule list" where
  "allocate_students regs dates labs internal_examiners external_examiners semesters
     date_subjects date_register_numbers =
     (let reg_to_sem_batch = build_reg_to_sem_batch semesters
      in if date_register_numbers \<noteq> []
         then keyed_date_loop internal_examiners external_examiners reg_to_sem_batch labs
                date_subjects date_register_numbers dates []
         else sequential_date_loop internal_examiners external_examiners reg_to_sem_batch labs
                date_subjects regs dates 0 [])"

definition get_all_register_numbers :: "lab_schedule list \<Rightarrow> string list" where
  "get_all_register_numbers schedules =
     concat (map (\<lambda>schedule. concat (map register_numbers (slots schedule))) schedules)"

text \<open>\<^verbatim>\<open>sum(len(slot.register_numbers) for slot in schedule.slots)\<close>\<close>

definition schedule_student_count :: "lab_schedule \<Rightarrow> nat" where
  "schedule_student_count schedule = sum_list (map (\<lambda>slot. length (register_numbers slot)) (slots schedule))"

definition count_students_per_date :: "lab_schedule list \<Rightarrow> (string \<times> nat) list" where
  "count_students_per_date schedules =
     fold (\<lambda>schedule counts.
       AList.update (date schedule)
         ((case map_of counts (date schedule) of None \<Rightarrow> 0 | Some c \<Rightarrow> c)
          + schedule_student_count schedule) counts)
       schedules []"

definition count_students_per_lab :: "lab_schedule list \<Rightarrow> nat list" where
  "count_students_per_lab schedules = map schedule_student_count schedules"

subsection \<open>\<^verbatim>\<open>validators\<close>\<close>

record validation_error =
  field :: string
  message :: string

record exam_metadata =
  exam_name :: "string option"
  metadata_semester :: "string option"
  department :: "string option"
  academic_year :: "string option"

text \<open>The fields of \<^verbatim>\<open>ScheduleRequest\<close> that the validator reads.\<close>

record schedule_request =
  request_exam_metadata :: "exam_metadata option"
  request_register_numbers :: "string list"
  request_dates :: "string list"
  request_labs :: "string list"
  request_internal_examiners :: "examiner list"
  request_external_examiners :: "examiner list"

definition DEFAULT_LABS :: "string list" where
  "DEFAULT_LABS = [''Lab 1'', ''Lab 2'', ''Lab 3'', ''Lab 4'', ''Lab 5'']"

definition string_of_int :: "int \<Rightarrow> string" where
  "string_of_int i = (if i < 0 then ''-'' @ string_of_nat (nat (- i)) else string_of_nat (nat i))"

text \<open>
  \<^verbatim>\<open>calculate_required_dates\<close> computes \<^verbatim>\<open>math.ceil(student_count / DAILY_CAPACITY)\<close>
  for a positive count, the expression of \<open>required_days_of\<close>, with the same
  \<^verbatim>\<open>OverflowError\<close> and the same range in which the value is the float's.
\<close>

definition calculate_required_dates :: "int \<Rightarrow> error + int" where
  "calculate_required_dates student_count =
     (if student_count \<le> 0 then Inr 0 else required_days_of student_count)"

definition calculate_additional_dates_needed :: "int \<Rightarrow> int \<Rightarrow> error + int" where
  "calculate_additional_dates_needed student_count provided_dates =
     (case calculate_required_dates student_count of
        Inl e \<Rightarrow> Inl e
      | Inr required \<Rightarrow> Inr (max 0 (required - provided_dates)))"

definition validate_register_numbers :: "string list \<Rightarrow> validation_error option" where
  "validate_register_numbers regs =
     (if regs = []
      then Some \<lparr>field = ''register_numbers'',
                 message = ''At least one register number is required to generate a schedule''\<rparr>
      else None)"

definition validate_labs :: "string list \<Rightarrow> validation_error option \<times> string list" where
  "validate_labs labs = (if labs = [] then (None, DEFAULT_LABS) else (None, labs))"

definition validate_internal_examiners :: "examiner list \<Rightarrow> validation_error option" where
  "validate_internal_examiners examiners = None"

definition validate_external_examiners :: "examiner list \<Rightarrow> validation_error option" where
  "validate_external_examiners examiners = None"

definition validate_exam_metadata :: "exam_metadata option \<Rightarrow> validation_error option" where
  "validate_exam_metadata metadata = None"

text \<open>The loop "Validate date format" of \<^verbatim>\<open>validate_dates\<close>: the first token that fails to
  parse after stripping ends the function with the error.\<close>

fun first_invalid_date :: "string list \<Rightarrow> validation_error option" where
  "first_invalid_date [] = None"
| "first_invalid_date (date_str # rest) =
     (case strptime (strip date_str) of
        Inl e \<Rightarrow> Some \<lparr>field = ''dates'',
                        message = ''Invalid date format: '' @ date_str @ ''. Expected DD-MM-YY''\<rparr>
      | Inr dt \<Rightarrow> first_invalid_date rest)"

definition validate_dates ::
  "string list \<Rightarrow> int \<Rightarrow> error + validation_error option \<times> string option" where
  "validate_dates dates student_count =
     (if dates = []
      then Inr (None, Some ''No dates provided. Please add exam dates for scheduling.'')
      else
        (case first_invalid_date dates of
           Some err \<Rightarrow> Inr (Some err, None)
         | None \<Rightarrow>
             (case calculate_additional_dates_needed student_count (int (length dates)) of
                Inl e \<Rightarrow> Inl e
              | Inr additional_needed \<Rightarrow>
                  if additional_needed > 0
                  then
                    (case calculate_required_dates student_count of
                       Inl e \<Rightarrow> Inl e
                     | Inr required \<Rightarrow>
                         Inr (None, Some (''Note: '' @ string_of_int student_count
                                  @ '' students may need '' @ string_of_int required
                                  @ '' dates. You provided '' @ string_of_nat (length dates)
                                  @ ''.'')))
                  else Inr (None, None))))"

text \<open>\<^verbatim>\<open>if err: errors.append(err)\<close>, and the same for a warning.\<close>

definition append_opt :: "'a list \<Rightarrow> 'a option \<Rightarrow> 'a list" where
  "append_opt xs xo = (case xo of None \<Rightarrow> xs | Some x \<Rightarrow> xs @ [x])"

text \<open>
  \<^verbatim>\<open>validate_schedule_request\<close> returns (errors, warnings); it also stores the default labs
  into the request, so the request is returned as the third component. It raises only
  what \<^verbatim>\<open>validate_dates\<close> raises.
\<close>

definition validate_schedule_request ::
  "schedule_request \<Rightarrow> error + validation_error list \<times> string list \<times> schedule_request" where
  "validate_schedule_request request =
     (let errors0 = append_opt [] (validate_exam_metadata (request_exam_metadata request));
          errors1 = append_opt errors0 (validate_register_numbers (request_register_numbers request));
          (labs_error, labs_to_use) = validate_labs (request_labs request);
          errors2 = append_opt errors1 labs_error;
          (warnings1, request1) =
            (if request_labs request = []
             then ([''Using default labs: '' @ join '', '' DEFAULT_LABS],
                   request\<lparr>request_labs := labs_to_use\<rparr>)
             else ([], request));
          errors3 = append_opt errors2
                      (validate_internal_examiners (request_internal_examiners request1));
          warnings2 =
            (if request_internal_examiners request1 = []
             then warnings1 @ [''No internal examiners provided. Schedule will be generated without examiner assignments.'']
             else warnings1);
          errors4 = append_opt errors3
                      (validate_external_examiners (request_external_examiners request1));
          warnings3 =
            (if request_external_examiners request1 = []
             then warnings2 @ [''No external examiners provided. Schedule will be generated without examiner assignments.'']
             else warnings2)
      in if request_register_numbers request1 \<noteq> []
         then
           (case validate_dates (request_dates request1)
                   (int (length (request_register_numbers request1))) of
              Inl e \<Rightarrow> Inl e
            | Inr (dates_error, dates_warning) \<Rightarrow>
                Inr (append_opt errors4 dates_error, append_opt warnings3 dates_warning,
                     request1))
         else Inr (errors4, warnings3, request1))"

subsection \<open>Vocabulary of the proofs\<close>

text \<open>
  The definitions below are not part of the program; they name what the proofs and the
  statements talk about. \<open>slot_shape s chunk\<close>: the two sessions of \<open>s\<close> are the
  forenoon slot with the first 13 of \<open>chunk\<close> and the afternoon slot with the rest.
  \<open>chunk_schedule r2sb s (d, chunk)\<close>: \<open>s\<close> is the schedule built on date \<open>d\<close> from the
  non-empty chunk of at most 25, with the cohort fields computed from the chunk.
  \<open>date_students drn d\<close> is \<^verbatim>\<open>date_register_numbers.get(d, [])\<close>.
\<close>

definition slot_shape :: "lab_schedule \<Rightarrow> string list \<Rightarrow> bool" where
  "slot_shape s chunk =
     (slots s =
        [\<lparr>time = FORENOON_TIME, session = ''forenoon'', capacity = length (take 13 chunk),
           register_numbers = take 13 chunk\<rparr>,
         \<lparr>time = AFTERNOON_TIME, session = ''afternoon'', capacity = length (drop 13 chunk),
           register_numbers = drop 13 chunk\<rparr>])"

definition chunk_schedule ::
  "(string \<times> string \<times> string) list \<Rightarrow> lab_schedule \<Rightarrow> string \<times> string list \<Rightarrow> bool" where
  "chunk_schedule r2sb s dc =
     (slot_shape s (snd dc) \<and> date s = fst dc \<and> snd dc \<noteq> [] \<and> length (snd dc) \<le> 25
      \<and> (semester s, batch s) = semester_batch_info r2sb (snd dc))"

definition pick_examiner :: "examiner list \<Rightarrow> nat \<Rightarrow> examiner option" where
  "pick_examiner es i = (if es \<noteq> [] then Some (es ! (i mod length es)) else None)"

definition next_chunk :: "string list \<Rightarrow> nat \<Rightarrow> string list" where
  "next_chunk students si = take (min (si + 25) (length students) - si) (drop si students)"

definition date_students :: "(string \<times> string list) list \<Rightarrow> string \<Rightarrow> string list" where
  "date_students drn d = (case map_of drn d of None \<Rightarrow> [] | Some xs \<Rightarrow> xs)"

definition chunk_total :: "string \<Rightarrow> (string \<times> string list) list \<Rightarrow> nat" where
  "chunk_total d dcs = sum_list (map (\<lambda>dc. length (snd dc)) (filter (\<lambda>dc. fst dc = d) dcs))"

definition count_step :: "lab_schedule \<Rightarrow> (string \<times> nat) list \<Rightarrow> (string \<times> nat) list" where
  "count_step schedule counts =
     AList.update (date schedule)
       ((case map_of counts (date schedule) of None \<Rightarrow> 0 | Some c \<Rightarrow> c)
        + schedule_student_count schedule) counts"

definition count_of :: "('a \<times> nat) list \<Rightarrow> 'a \<Rightarrow> nat" where
  "count_of counts d = (case map_of counts d of None \<Rightarrow> 0 | Some c \<Rightarrow> c)"

text \<open>Sample data for the concrete instances.\<close>

definition sample_regs :: "nat \<Rightarrow> string list" where
  "sample_regs n = map (\<lambda>i. ''R'' @ string_of_nat i) [0..<n]"

definition sample_schedule :: lab_schedule where
  "sample_schedule =
     \<lparr>date = ''01-01-25'', subject = None, lab = ''Lab 1'',
      slots = [\<lparr>time = FORENOON_TIME, session = ''forenoon'', capacity = 2,
                 register_numbers = [''R0'', ''R1'']\<rparr>,
               \<lparr>time = AFTERNOON_TIME, session = ''afternoon'', capacity = 0,
                 register_numbers = []\<rparr>],
      internal_examiner = None, external_examiner = None,
      semester = None, batch = None\<rparr>"

text \<open>
  \<open>malformed t\<close>: \<^verbatim>\<open>strptime(t, '%d-%m-%y')\<close> raises; \<open>well_formed d\<close>: \<^verbatim>\<open>parse_date(d)\<close>
  returns. \<open>date_key t\<close> is the sort key \<^verbatim>\<open>parse_dates\<close> gives a stripped token: its
  datetime, or \<^verbatim>\<open>datetime.max\<close> when it is malformed. \<open>invalid_date_error\<close> is the
  error \<^verbatim>\<open>validate_dates\<close> builds for a token.
\<close>

definition malformed :: "string \<Rightarrow> bool" where
  "malformed t = isl (strptime t)"

definition date_key :: "string \<Rightarrow> datetime" where
  "date_key t = (case strptime t of Inr dt \<Rightarrow> dt | Inl e \<Rightarrow> datetime_max)"

definition invalid_date_error :: "string \<Rightarrow> validation_error" where
  "invalid_date_error date_str =
     \<lparr>field = ''dates'', message = ''Invalid date format: '' @ date_str @ ''. Expected DD-MM-YY''\<rparr>"

text \<open>\<open>error_fields r\<close>: the field tags of the errors of a validation result, in order.\<close>

definition error_fields ::
  "error + validation_error list \<times> string list \<times> schedule_request \<Rightarrow> error + string list" where
  "error_fields r = map_sum id (\<lambda>res. map field (fst res)) r"

definition sample_request :: "string list \<Rightarrow> string list \<Rightarrow> schedule_request" where
  "sample_request regs dates =
     \<lparr>request_exam_metadata = None, request_register_numbers = regs, request_dates = dates,
      request_labs = [], request_internal_examiners = [], request_external_examiners = []\<rparr>"

definition well_formed :: "string \<Rightarrow> bool" where
  "well_formed d = (\<not> isl (parse_date d))"

text \<open>
  \<open>cohort_pairs r2sb chunk\<close>: the (semester, batch label) pairs of the candidates of the
  chunk that the lookup knows, in chunk order, one entry per candidate.
  \<open>schedule_pairs sems s\<close>: the same for the candidates of a schedule. \<open>tally\<close> is the
  counting loop of \<^verbatim>\<open>count_batches\<close> over such a list, and \<open>first_occurrences\<close> is a
  list without its repetitions, each element at its first position.
\<close>

definition cohort_pairs :: "(string \<times> string \<times> string) list \<Rightarrow> string list \<Rightarrow> (string \<times> string) list" where
  "cohort_pairs r2sb chunk = List.map_filter (map_of r2sb) chunk"

fun tally :: "'a list \<Rightarrow> ('a \<times> nat) list \<Rightarrow> ('a \<times> nat) list" where
  "tally [] counts = counts"
| "tally (p # ps) counts = tally ps (AList.update p (count_of counts p + 1) counts)"

fun first_occurrences :: "'a list \<Rightarrow> 'a list" where
  "first_occurrences [] = []"
| "first_occurrences (x # xs) = x # filter (\<lambda>y. y \<noteq> x) (first_occurrences xs)"

definition schedule_pairs :: "semester_dict list \<Rightarrow> lab_schedule \<Rightarrow> (string \<times> string) list" where
  "schedule_pairs sems s =
     cohort_pairs (build_reg_to_sem_batch sems) (concat (map register_numbers (slots s)))"

definition sample_semesters :: "semester_dict list" where
  "sample_semesters =
     [\<lparr>semester_name = ''S1'',
       batches = [\<lparr>batch_name = ''A'', batch_register_numbers = [''R0'']\<rparr>]\<rparr>,
      \<lparr>semester_name = ''S2'',
       batches = [\<lparr>batch_name = ''B'', batch_register_numbers = [''R1'']\<rparr>]\<rparr>]"

definition sample_cohort_schedule :: lab_schedule where
  "sample_cohort_schedule =
     \<lparr>date = ''01-01-25'', subject = None, lab = ''Lab 1'',
      slots = [\<lparr>time = FORENOON_TIME, session = ''forenoon'', capacity = 2,
                 register_numbers = [''R1'', ''R0'']\<rparr>,
               \<lparr>time = AFTERNOON_TIME, session = ''afternoon'', capacity = 0,
                 register_numbers = []\<rparr>],
      internal_examiner = None, external_examiner = None,
      semester = Some ''S2'', batch = Some ''S1A, S2B''\<rparr>"

section \<open>The allocation engine\<close>

lemma create_lab_schedule_Inr:
  assumes "create_lab_schedule d l chunk ie ee sem bat subj = Inr s" "length chunk \<le> 25"
  shows "slot_shape s chunk \<and> date s = d \<and> lab s = l \<and> subject s = subj
         \<and> semester s = sem \<and> batch s = bat
         \<and> internal_examiner s = ie \<and> external_examiner s = ee
         \<and> l \<noteq> [] \<and> valid_examiner_opt ie \<and> valid_examiner_opt ee"
  using assms
  by (auto simp: create_lab_schedule_def split_into_slots_def create_time_slot_def TimeSlot_def
        LabSchedule_def slot_shape_def FORENOON_CAPACITY_def AFTERNOON_CAPACITY_def
        split: if_splits sum.splits)

lemma create_lab_schedule_total:
  assumes "l \<noteq> []" "valid_examiner_opt ie" "valid_examiner_opt ee"
  shows "\<exists>s. create_lab_schedule d l chunk ie ee sem bat subj = Inr s"
  using assms
  by (auto simp: create_lab_schedule_def split_into_slots_def create_time_slot_def TimeSlot_def
        LabSchedule_def FORENOON_CAPACITY_def AFTERNOON_CAPACITY_def
        split: if_splits sum.splits)

lemma slot_shape_flatten:
  "slot_shape s chunk \<Longrightarrow> concat (map register_numbers (slots s)) = chunk"
  by (simp add: slot_shape_def)

lemma slot_shape_count:
  "slot_shape s chunk \<Longrightarrow> schedule_student_count s = length chunk"
  by (simp add: slot_shape_def schedule_student_count_def)

lemma next_chunk_props:
  "si < length students \<Longrightarrow> next_chunk students si \<noteq> [] \<and> length (next_chunk students si) \<le> 25"
  by (auto simp: next_chunk_def)

lemma lab_loop_done:
  "length students \<le> si \<Longrightarrow>
   lab_loop ies ees r2sb d subj students els si sch = Inr (si, sch)"
  by (cases els) auto

lemma lab_loop_step:
  assumes "si < length students"
  shows "lab_loop ies ees r2sb d subj students ((i, l) # rest) si sch =
     (case create_lab_schedule d l (next_chunk students si) (pick_examiner ies i)
             (pick_examiner ees i)
             (fst (semester_batch_info r2sb (next_chunk students si)))
             (snd (semester_batch_info r2sb (next_chunk students si))) subj of
        Inl e \<Rightarrow> Inl e
      | Inr schedule \<Rightarrow>
          lab_loop ies ees r2sb d subj students rest (min (si + 25) (length students))
            (sch @ [schedule]))"
proof -
  have ne: "take (min (si + 25) (length students) - si) (drop si students) \<noteq> []"
    using next_chunk_props [OF assms] by (simp add: next_chunk_def)
  show ?thesis
    using assms ne
    by (simp add: Let_def STUDENTS_PER_LAB_def next_chunk_def pick_examiner_def
          split: prod.splits)
qed

lemma pick_examiner_valid:
  "\<forall>e\<in>set es. valid_examiner e \<Longrightarrow> valid_examiner_opt (pick_examiner es i)"
  by (auto simp: valid_examiner_opt_def pick_examiner_def)

lemma lab_loop_result:
  assumes "lab_loop ies ees r2sb d subj students els si sch = Inr (si', sch')"
    and "si \<le> length students"
  shows "\<exists>new chunks. sch' = sch @ new
           \<and> list_all2 (chunk_schedule r2sb) new (map (Pair d) chunks)
           \<and> concat chunks = take (si' - si) (drop si students)
           \<and> si' = min (si + 25 * length els) (length students)"
  using assms
proof (induction els arbitrary: si sch)
  case Nil
  then show ?case by (intro exI [of _ "[]"]) simp
next
  case (Cons il rest)
  obtain i l where il: "il = (i, l)" by (cases il)
  show ?case
  proof (cases "si \<ge> length students")
    case True
    with Cons.prems il show ?thesis by (intro exI [of _ "[]"]) simp
  next
    case False
    define ce where "ce = min (si + 25) (length students)"
    define chunk where "chunk = next_chunk students si"
    have lt: "si < length students" using False by simp
    have ce: "si < ce" "ce \<le> length students" "ce - si \<le> 25"
      using False by (auto simp: ce_def)
    have chunk_ne: "chunk \<noteq> []" and chunk_len: "length chunk \<le> 25"
      using next_chunk_props [OF lt] by (auto simp: chunk_def)
    obtain sem bat where sb: "semester_batch_info r2sb chunk = (sem, bat)"
      by (cases "semester_batch_info r2sb chunk")
    from Cons.prems(1) sb
    obtain schedule where
      cls: "create_lab_schedule d l chunk (pick_examiner ies i) (pick_examiner ees i)
              sem bat subj = Inr schedule" and
      rec: "lab_loop ies ees r2sb d subj students rest ce (sch @ [schedule]) = Inr (si', sch')"
      unfolding il lab_loop_step [OF lt] chunk_def [symmetric] ce_def [symmetric]
      by (auto split: sum.splits)
    from Cons.IH [OF rec ce(2)] obtain new chunks where
      n: "sch' = (sch @ [schedule]) @ new"
         "list_all2 (chunk_schedule r2sb) new (map (Pair d) chunks)"
         "concat chunks = take (si' - ce) (drop ce students)"
         "si' = min (ce + 25 * length rest) (length students)"
      by blast
    from create_lab_schedule_Inr [OF cls chunk_len] sb chunk_ne chunk_len
    have cs: "chunk_schedule r2sb schedule (d, chunk)"
      by (simp add: chunk_schedule_def)
    have si': "si' = min (si + 25 * length (il # rest)) (length students)"
      using n(4) by (auto simp: ce_def)
    have "ce \<le> si'" using n(4) ce by auto
    then have "take (si' - si) (drop si students)
                = take (ce - si) (drop si students) @ take (si' - ce) (drop ce students)"
      using ce(1) take_add [of "ce - si" "si' - ce" "drop si students"] by simp
    then have cc: "concat (chunk # chunks) = take (si' - si) (drop si students)"
      using n(3) by (simp add: chunk_def next_chunk_def ce_def)
    show ?thesis
      using n(1) n(2) cs cc si'
      by (intro exI [of _ "schedule # new"] exI [of _ "chunk # chunks"]) simp
  qed
qed

lemma lab_loop_total:
  assumes "\<forall>il\<in>set els. snd il \<noteq> []" "\<forall>e\<in>set ies. valid_examiner e" "\<forall>e\<in>set ees. valid_examiner e"
  shows "\<exists>r. lab_loop ies ees r2sb d subj students els si sch = Inr r"
  using assms(1)
proof (induction els arbitrary: si sch)
  case Nil
  then show ?case by simp
next
  case (Cons il rest)
  obtain i l where il: "il = (i, l)" by (cases il)
  have l: "l \<noteq> []" using Cons.prems il by simp
  have rest: "\<forall>il\<in>set rest. snd il \<noteq> []" using Cons.prems by simp
  show ?case
  proof (cases "si \<ge> length students")
    case True
    then show ?thesis by (simp add: lab_loop_done)
  next
    case False
    then have lt: "si < length students" by simp
    obtain schedule where
      "create_lab_schedule d l (next_chunk students si) (pick_examiner ies i)
             (pick_examiner ees i)
             (fst (semester_batch_info r2sb (next_chunk students si)))
             (snd (semester_batch_info r2sb (next_chunk students si))) subj = Inr schedule"
      using create_lab_schedule_total
        [OF l pick_examiner_valid [OF assms(2)] pick_examiner_valid [OF assms(3)]]
      by blast
    then show ?thesis
      unfolding il lab_loop_step [OF lt] using Cons.IH [OF rest] by simp
  qed
qed

lemma chunk_total_append: "chunk_total d (xs @ ys) = chunk_total d xs + chunk_total d ys"
  by (simp add: chunk_total_def)

lemma chunk_total_Nil: "chunk_total d [] = 0"
  by (simp add: chunk_total_def)

lemma chunk_total_same: "chunk_total d (map (Pair d) chunks) = length (concat chunks)"
  by (induction chunks) (simp_all add: chunk_total_def)

lemma chunk_total_other: "d' \<noteq> d \<Longrightarrow> chunk_total d' (map (Pair d) chunks) = 0"
  by (induction chunks) (simp_all add: chunk_total_def)

lemma length_enumerate_list: "length (enumerate_list xs) = length xs"
  by (simp add: enumerate_list_def)

lemma snd_enumerate_list: "snd ` set (enumerate_list xs) \<subseteq> set xs"
  by (auto simp: enumerate_list_def dest: set_zip_rightD)

lemma take_sum_drop:
  "take a (drop i xs) @ take b (drop (i + a) xs) = take (a + b) (drop i xs)"
  by (simp add: take_add add.commute)

lemma sequential_date_loop_result:
  assumes "sequential_date_loop ies ees r2sb labs dsub regs dates si sch = Inr sch'"
    and "si \<le> length regs"
  shows "\<exists>new dcs. sch' = sch @ new
           \<and> list_all2 (chunk_schedule r2sb) new dcs
           \<and> concat (map snd dcs) = take (25 * length labs * length dates) (drop si regs)
           \<and> (\<forall>d. chunk_total d dcs \<le> 25 * length labs * count_list dates d)"
  using assms
proof (induction dates arbitrary: si sch)
  case Nil
  then show ?case by (intro exI [of _ "[]"]) (simp add: chunk_total_Nil)
next
  case (Cons d ds)
  show ?case
  proof (cases "si \<ge> length regs")
    case True
    with Cons.prems show ?thesis by (intro exI [of _ "[]"]) (simp add: chunk_total_Nil)
  next
    case False
    with Cons.prems(1) obtain si1 sch1 where
      ll: "lab_loop ies ees r2sb d (map_of dsub d) regs (enumerate_list labs) si sch
             = Inr (si1, sch1)" and
      rec: "sequential_date_loop ies ees r2sb labs dsub regs ds si1 sch1 = Inr sch'"
      by (auto simp: Let_def split: sum.splits)
    from lab_loop_result [OF ll Cons.prems(2)] obtain new1 chunks where
      l1: "sch1 = sch @ new1" "list_all2 (chunk_schedule r2sb) new1 (map (Pair d) chunks)"
          "concat chunks = take (si1 - si) (drop si regs)"
          "si1 = min (si + 25 * length labs) (length regs)"
      by (auto simp: length_enumerate_list)
    have si1: "si1 \<le> length regs" "si \<le> si1" using l1(4) Cons.prems(2) by auto
    from Cons.IH [OF rec si1(1)] obtain new2 dcs2 where
      l2: "sch' = sch1 @ new2" "list_all2 (chunk_schedule r2sb) new2 dcs2"
          "concat (map snd dcs2) = take (25 * length labs * length ds) (drop si1 regs)"
          "\<forall>d. chunk_total d dcs2 \<le> 25 * length labs * count_list ds d"
      by blast
    let ?dcs = "map (Pair d) chunks @ dcs2"
    have a: "sch' = sch @ (new1 @ new2)" using l1(1) l2(1) by simp
    have b: "list_all2 (chunk_schedule r2sb) (new1 @ new2) ?dcs"
      using l1(2) l2(2) by (rule list_all2_appendI)
    have c: "concat (map snd ?dcs) = take (25 * length labs * length (d # ds)) (drop si regs)"
    proof (cases "si + 25 * length labs \<le> length regs")
      case True
      then have s: "si1 = si + 25 * length labs" using l1(4) by simp
      have "concat (map snd ?dcs)
            = take (25 * length labs) (drop si regs)
              @ take (25 * length labs * length ds) (drop (si + 25 * length labs) regs)"
        using l1(3) l2(3) s by (simp add: comp_def)
      also have "\<dots> = take (25 * length labs + 25 * length labs * length ds) (drop si regs)"
        by (rule take_sum_drop)
      finally show ?thesis by (simp add: algebra_simps)
    next
      case False
      then have s: "si1 = length regs" using l1(4) by simp
      have "length (drop si regs) \<le> 25 * length labs * length (d # ds)"
        using False by simp
      then have "take (25 * length labs * length (d # ds)) (drop si regs) = drop si regs"
        by simp
      moreover have "concat (map snd ?dcs) = drop si regs"
        using l1(3) l2(3) s by (simp add: comp_def)
      ultimately show ?thesis by simp
    qed
    have len: "length (concat chunks) \<le> 25 * length labs"
      using l1(3) l1(4) by simp
    have e: "\<forall>d'. chunk_total d' ?dcs \<le> 25 * length labs * count_list (d # ds) d'"
    proof
      fix d'
      show "chunk_total d' ?dcs \<le> 25 * length labs * count_list (d # ds) d'"
      proof (cases "d' = d")
        case True
        then show ?thesis
          using len l2(4) [rule_format, of d]
          by (simp add: chunk_total_append chunk_total_same)
      next
        case False
        then show ?thesis
          using l2(4) [rule_format, of d']
          by (simp add: chunk_total_append chunk_total_other)
      qed
    qed
    show ?thesis using a b c e by blast
  qed
qed

lemma keyed_date_loop_result:
  assumes "keyed_date_loop ies ees r2sb labs dsub drn dates sch = Inr sch'"
  shows "\<exists>new dcs. sch' = sch @ new
           \<and> list_all2 (chunk_schedule r2sb) new dcs
           \<and> concat (map snd dcs)
               = concat (map (\<lambda>d. take (25 * length labs) (date_students drn d)) dates)
           \<and> (\<forall>d. chunk_total d dcs \<le> 25 * length labs * count_list dates d)"
  using assms
proof (induction dates arbitrary: sch)
  case Nil
  then show ?case by (intro exI [of _ "[]"]) (simp add: chunk_total_Nil)
next
  case (Cons d ds)
  from Cons.prems obtain si1 sch1 where
    ll: "lab_loop ies ees r2sb d (map_of dsub d) (date_students drn d) (enumerate_list labs) 0 sch
           = Inr (si1, sch1)" and
    rec: "keyed_date_loop ies ees r2sb labs dsub drn ds sch1 = Inr sch'"
    by (auto simp: Let_def date_students_def split: sum.splits)
  from lab_loop_result [OF ll] obtain new1 chunks where
    l1: "sch1 = sch @ new1" "list_all2 (chunk_schedule r2sb) new1 (map (Pair d) chunks)"
        "concat chunks = take si1 (date_students drn d)"
        "si1 = min (25 * length labs) (length (date_students drn d))"
    by (auto simp: length_enumerate_list)
  from Cons.IH [OF rec] obtain new2 dcs2 where
    l2: "sch' = sch1 @ new2" "list_all2 (chunk_schedule r2sb) new2 dcs2"
        "concat (map snd dcs2)
           = concat (map (\<lambda>d. take (25 * length labs) (date_students drn d)) ds)"
        "\<forall>d. chunk_total d dcs2 \<le> 25 * length labs * count_list ds d"
    by blast
  let ?dcs = "map (Pair d) chunks @ dcs2"
  have a: "sch' = sch @ (new1 @ new2)" using l1(1) l2(1) by simp
  have b: "list_all2 (chunk_schedule r2sb) (new1 @ new2) ?dcs"
    using l1(2) l2(2) by (rule list_all2_appendI)
  have t: "take si1 (date_students drn d) = take (25 * length labs) (date_students drn d)"
    using l1(4) by (simp add: min_def)
  have c: "concat (map snd ?dcs)
             = concat (map (\<lambda>d. take (25 * length labs) (date_students drn d)) (d # ds))"
    using l1(3) l2(3) t by (simp add: comp_def)
  have len: "length (concat chunks) \<le> 25 * length labs"
    using l1(3) l1(4) by simp
  have e: "\<forall>d'. chunk_total d' ?dcs \<le> 25 * length labs * count_list (d # ds) d'"
  proof
    fix d'
    show "chunk_total d' ?dcs \<le> 25 * length labs * count_list (d # ds) d'"
    proof (cases "d' = d")
      case True
      then show ?thesis
        using len l2(4) [rule_format, of d]
        by (simp add: chunk_total_append chunk_total_same)
    next
      case False
      then show ?thesis
        using l2(4) [rule_format, of d']
        by (simp add: chunk_total_append chunk_total_other)
    qed
  qed
  show ?case using a b c e by blast
qed

lemma enumerate_list_names:
  "\<forall>l\<in>set labs. l \<noteq> [] \<Longrightarrow> \<forall>il\<in>set (enumerate_list labs). snd il \<noteq> []"
  using snd_enumerate_list [of labs] by auto

lemma sequential_date_loop_total:
  assumes "\<forall>l\<in>set labs. l \<noteq> []" "\<forall>e\<in>set ies. valid_examiner e" "\<forall>e\<in>set ees. valid_examiner e"
  shows "\<exists>r. sequential_date_loop ies ees r2sb labs dsub regs dates si sch = Inr r"
proof (induction dates arbitrary: si sch)
  case Nil
  show ?case by simp
next
  case (Cons d ds)
  obtain si1 sch1 where
    "lab_loop ies ees r2sb d (map_of dsub d) regs (enumerate_list labs) si sch = Inr (si1, sch1)"
    using lab_loop_total [OF enumerate_list_names [OF assms(1)] assms(2) assms(3)]
    by (metis surj_pair)
  then show ?case using Cons.IH [of si1 sch1] by (simp add: Let_def)
qed

lemma keyed_date_loop_total:
  assumes "\<forall>l\<in>set labs. l \<noteq> []" "\<forall>e\<in>set ies. valid_examiner e" "\<forall>e\<in>set ees. valid_examiner e"
  shows "\<exists>r. keyed_date_loop ies ees r2sb labs dsub drn dates sch = Inr r"
proof (induction dates arbitrary: sch)
  case Nil
  show ?case by simp
next
  case (Cons d ds)
  obtain si1 sch1 where
    "lab_loop ies ees r2sb d (map_of dsub d) (date_students drn d) (enumerate_list labs) 0 sch
       = Inr (si1, sch1)"
    using lab_loop_total [OF enumerate_list_names [OF assms(1)] assms(2) assms(3)]
    by (metis surj_pair)
  then show ?case using Cons.IH [of sch1] by (simp add: Let_def date_students_def)
qed

lemma allocate_students_total:
  assumes "\<forall>l\<in>set labs. l \<noteq> []" "\<forall>e\<in>set ies. valid_examiner e" "\<forall>e\<in>set ees. valid_examiner e"
  shows "\<exists>sch. allocate_students regs dates labs ies ees sems dsub drn = Inr sch"
  using sequential_date_loop_total [OF assms] keyed_date_loop_total [OF assms]
  by (simp add: allocate_students_def Let_def)

lemma allocate_students_chunks:
  assumes "allocate_students regs dates labs ies ees sems dsub drn = Inr sch"
  shows "\<exists>dcs. list_all2 (chunk_schedule (build_reg_to_sem_batch sems)) sch dcs
           \<and> concat (map snd dcs)
               = (if drn = [] then take (25 * length labs * length dates) regs
                  else concat (map (\<lambda>d. take (25 * length labs) (date_students drn d)) dates))
           \<and> (\<forall>d. chunk_total d dcs \<le> 25 * length labs * count_list dates d)"
proof (cases "drn = []")
  case True
  with assms have
    "sequential_date_loop ies ees (build_reg_to_sem_batch sems) labs dsub regs dates 0 [] = Inr sch"
    by (simp add: allocate_students_def Let_def)
  from sequential_date_loop_result [OF this] True show ?thesis by auto
next
  case False
  with assms have
    "keyed_date_loop ies ees (build_reg_to_sem_batch sems) labs dsub drn dates [] = Inr sch"
    by (simp add: allocate_students_def Let_def)
  from keyed_date_loop_result [OF this] False show ?thesis by auto
qed

lemma chunk_schedules_flatten:
  "list_all2 (chunk_schedule r2sb) sch dcs \<Longrightarrow> get_all_register_numbers sch = concat (map snd dcs)"
  by (induction rule: list_all2_induct)
     (simp_all add: get_all_register_numbers_def chunk_schedule_def slot_shape_flatten)

lemma chunk_schedules_total:
  "list_all2 (chunk_schedule r2sb) sch dcs \<Longrightarrow>
   sum_list (map schedule_student_count (filter (\<lambda>s. date s = d) sch)) = chunk_total d dcs"
  by (induction rule: list_all2_induct)
     (auto simp: chunk_total_def chunk_schedule_def slot_shape_count)

lemma chunk_schedules_member:
  "list_all2 (chunk_schedule r2sb) sch dcs \<Longrightarrow> s \<in> set sch \<Longrightarrow> \<exists>dc. chunk_schedule r2sb s dc"
  by (induction rule: list_all2_induct) auto

lemma count_of_fold:
  "count_of (fold count_step sch acc) d
     = count_of acc d + sum_list (map schedule_student_count (filter (\<lambda>s. date s = d) sch))"
  by (induction sch arbitrary: acc) (auto simp: count_of_def count_step_def update_conv')

lemma distinct_fold_count_step:
  "distinct (map fst acc) \<Longrightarrow> distinct (map fst (fold count_step sch acc))"
  by (induction sch arbitrary: acc) (simp_all add: count_step_def distinct_update)

lemma count_students_per_date_entry:
  assumes "(d, c) \<in> set (count_students_per_date sch)"
  shows "c = sum_list (map schedule_student_count (filter (\<lambda>s. date s = d) sch))"
proof -
  have eq: "count_students_per_date sch = fold count_step sch []"
    by (simp add: count_students_per_date_def count_step_def [abs_def])
  have "distinct (map fst (count_students_per_date sch))"
    unfolding eq by (rule distinct_fold_count_step) simp
  with assms have "map_of (count_students_per_date sch) d = Some c" by simp
  then have h: "count_of (fold count_step sch []) d = c"
    unfolding eq by (simp add: count_of_def)
  have z: "count_of [] d = 0" by (simp add: count_of_def)
  show ?thesis using h z count_of_fold [of sch "[]" d] by simp
qed

lemma capacity_commute: "25 * (l::nat) * n = n * l * 25"
  by simp

lemma sample_allocation:
  "allocate_students [''R0'', ''R1''] [''01-01-25''] [''Lab 1''] [] [] [] [] [] = Inr [sample_schedule]"
  by code_simp





text \<open>
  Claim C2. Every schedule that \<^verbatim>\<open>allocate_students\<close> returns has exactly two sessions,
  forenoon then afternoon; the forenoon holds at most 13 candidates, the afternoon at most
  12, together at most 25, and the afternoon is non-empty only when the forenoon holds 13.
\<close>

theorem lab_schedule_two_sessions:
  assumes "allocate_students regs dates labs ies ees sems dsub drn = Inr sch"
    and "s \<in> set sch"
  shows "\<exists>fs as. slots s = [fs, as]
           \<and> session fs = ''forenoon'' \<and> session as = ''afternoon''
           \<and> length (register_numbers fs) \<le> 13
           \<and> length (register_numbers as) \<le> 12
           \<and> length (register_numbers fs) + length (register_numbers as) \<le> 25
           \<and> (register_numbers as \<noteq> [] \<longrightarrow> length (register_numbers fs) = 13)"
proof -
  from allocate_students_chunks [OF assms(1)] obtain dcs where
    "list_all2 (chunk_schedule (build_reg_to_sem_batch sems)) sch dcs" by blast
  from chunk_schedules_member [OF this assms(2)] obtain dc where
    "chunk_schedule (build_reg_to_sem_batch sems) s dc" by blast
  then have sh: "slot_shape s (snd dc)" and len: "length (snd dc) \<le> 25"
    by (simp_all add: chunk_schedule_def)
  show ?thesis
    using sh len by (auto simp: slot_shape_def)
qed

text \<open>An instance of the theorem: the schedule of two candidates on one date in one lab.\<close>

theorem lab_schedule_two_sessions_witness:
  "\<exists>sch s fs as.
      allocate_students [''R0'', ''R1''] [''01-01-25''] [''Lab 1''] [] [] [] [] [] = Inr sch
      \<and> s \<in> set sch \<and> slots s = [fs, as]
      \<and> session fs = ''forenoon'' \<and> session as = ''afternoon''
      \<and> length (register_numbers fs) \<le> 13 \<and> length (register_numbers as) \<le> 12"
proof -
  have m: "sample_schedule \<in> set [sample_schedule]" by simp
  from lab_schedule_two_sessions [OF sample_allocation m] obtain fs as where
    "slots sample_schedule = [fs, as]" "session fs = ''forenoon''" "session as = ''afternoon''"
    "length (register_numbers fs) \<le> 13" "length (register_numbers as) \<le> 12"
    by auto
  with sample_allocation m show ?thesis by (intro exI conjI)
qed

text \<open>
  Claim C3, as amended. The bound of 125 per date rests on five labs and on each date
  being listed once; the engine itself takes any number of labs and does not look at
  repeated dates. What holds: for a run with at most five labs and pairwise distinct
  dates, every count of \<^verbatim>\<open>count_students_per_date\<close> is at most 125.
\<close>

theorem date_total_at_most_125:
  assumes "allocate_students regs dates labs ies ees sems dsub drn = Inr sch"
    and "length labs \<le> 5" and "distinct dates"
    and "(d, c) \<in> set (count_students_per_date sch)"
  shows "c \<le> 125"
proof -
  from allocate_students_chunks [OF assms(1)] obtain dcs where
    d: "list_all2 (chunk_schedule (build_reg_to_sem_batch sems)) sch dcs"
       "\<forall>d. chunk_total d dcs \<le> 25 * length labs * count_list dates d"
    by blast
  have "count_list dates d \<le> 1"
    using assms(3) by (induction dates) auto
  then have "25 * length labs * count_list dates d \<le> 25 * 5 * 1"
    using assms(2) by (intro mult_le_mono) simp_all
  moreover have "c = chunk_total d dcs"
    using count_students_per_date_entry [OF assms(4)] chunk_schedules_total [OF d(1)] by simp
  ultimately show ?thesis using d(2) [rule_format, of d] by simp
qed

text \<open>An instance of the theorem: two candidates, one date, one lab.\<close>

theorem date_total_at_most_125_witness:
  "allocate_students [''R0'', ''R1''] [''01-01-25''] [''Lab 1''] [] [] [] [] [] = Inr [sample_schedule]
   \<and> (''01-01-25'', 2) \<in> set (count_students_per_date [sample_schedule])
   \<and> (2::nat) \<le> 125"
proof -
  have l: "length [''Lab 1''] \<le> 5" by simp
  have d: "distinct [''01-01-25'']" by simp
  have c: "(''01-01-25'', 2) \<in> set (count_students_per_date [sample_schedule])"
    by code_simp
  from date_total_at_most_125 [OF sample_allocation l d c] sample_allocation c
  show ?thesis by simp
qed

text \<open>
  Claim C3 as stated fails: 126 candidates, one date and six labs. The single date
  receives all 126.
\<close>

theorem six_labs_exceed_125:
  "map_sum id count_students_per_date
     (allocate_students (sample_regs 126) [''01-01-25'']
        [''Lab 1'', ''Lab 2'', ''Lab 3'', ''Lab 4'', ''Lab 5'', ''Lab 6''] [] [] [] [] [])
     = Inr [(''01-01-25'', 126)]"
  by code_simp

text \<open>
  Claim C9. In sequential mode the flattened output is the prefix of the input list of
  length \<open>min (length register_numbers) (length dates * length labs * 25)\<close>: the candidates
  beyond the capacity of the dates and labs are left out, and nothing reports them. The
  run returns whenever no lab name is empty and every examiner has a non-empty id and name.
\<close>

theorem sequential_output_is_prefix:
  "(\<forall>sch. allocate_students regs dates labs ies ees sems dsub [] = Inr sch \<longrightarrow>
      get_all_register_numbers sch
        = take (min (length regs) (length dates * length labs * 25)) regs)
   \<and> ((\<forall>l\<in>set labs. l \<noteq> []) \<and> (\<forall>e\<in>set ies. valid_examiner e)
        \<and> (\<forall>e\<in>set ees. valid_examiner e) \<longrightarrow>
      (\<exists>sch. allocate_students regs dates labs ies ees sems dsub [] = Inr sch))"
proof (intro conjI allI impI)
  fix sch
  assume a: "allocate_students regs dates labs ies ees sems dsub [] = Inr sch"
  from allocate_students_chunks [OF a] obtain dcs where
    d: "list_all2 (chunk_schedule (build_reg_to_sem_batch sems)) sch dcs"
       "concat (map snd dcs) = take (25 * length labs * length dates) regs"
    by auto
  have "take (min (length regs) (length dates * length labs * 25)) regs
          = take (length dates * length labs * 25) regs"
    by (simp add: min_def)
  also have "\<dots> = take (25 * length labs * length dates) regs"
    unfolding capacity_commute ..
  also have "\<dots> = concat (map snd dcs)"
    using d(2) by simp
  finally show "get_all_register_numbers sch
        = take (min (length regs) (length dates * length labs * 25)) regs"
    by (simp only: chunk_schedules_flatten [OF d(1)])
next
  assume "(\<forall>l\<in>set labs. l \<noteq> []) \<and> (\<forall>e\<in>set ies. valid_examiner e)
              \<and> (\<forall>e\<in>set ees. valid_examiner e)"
  then have w: "\<forall>l\<in>set labs. l \<noteq> []" "\<forall>e\<in>set ies. valid_examiner e"
    "\<forall>e\<in>set ees. valid_examiner e"
    by simp_all
  show "\<exists>sch. allocate_students regs dates labs ies ees sems dsub [] = Inr sch"
    by (rule allocate_students_total [OF w])
qed

text \<open>An instance of the theorem: 26 candidates, one date, one lab; the output is the first 25.\<close>

theorem sequential_output_is_prefix_witness:
  "\<exists>sch. allocate_students (sample_regs 26) [''01-01-25''] [''Lab 1''] [] [] [] [] [] = Inr sch
         \<and> get_all_register_numbers sch = take 25 (sample_regs 26)"
  using sequential_output_is_prefix
          [of "sample_regs 26" "[''01-01-25'']" "[''Lab 1'']" "[]" "[]" "[]" "[]"]
  by (auto simp: sample_regs_def)

section \<open>The validator\<close>

lemma first_invalid_date_first:
  assumes "d \<in> set ds" "malformed (strip d)"
  shows "\<exists>pre d0 post. ds = pre @ d0 # post
           \<and> (\<forall>t\<in>set pre. \<not> malformed (strip t))
           \<and> malformed (strip d0)
           \<and> first_invalid_date ds = Some (invalid_date_error d0)"
  using assms
proof (induction ds)
  case Nil
  then show ?case by simp
next
  case (Cons x xs)
  show ?case
  proof (cases "strptime (strip x)")
    case (Inl e)
    then have "x # xs = [] @ x # xs \<and> (\<forall>t\<in>set []. \<not> malformed (strip t))
                 \<and> malformed (strip x)
                 \<and> first_invalid_date (x # xs) = Some (invalid_date_error x)"
      by (simp add: malformed_def invalid_date_error_def)
    then show ?thesis by blast
  next
    case (Inr dt)
    then have nx: "\<not> malformed (strip x)" by (simp add: malformed_def)
    with Cons.prems have "d \<in> set xs" by auto
    from Cons.IH [OF this Cons.prems(2)] obtain pre d0 post where
      p: "xs = pre @ d0 # post" "\<forall>t\<in>set pre. \<not> malformed (strip t)" "malformed (strip d0)"
         "first_invalid_date xs = Some (invalid_date_error d0)"
      by blast
    have "x # xs = (x # pre) @ d0 # post \<and> (\<forall>t\<in>set (x # pre). \<not> malformed (strip t))
            \<and> malformed (strip d0)
            \<and> first_invalid_date (x # xs) = Some (invalid_date_error d0)"
      using p nx Inr by simp
    then show ?thesis by blast
  qed
qed

lemma validate_schedule_request_dates:
  assumes "request_register_numbers request \<noteq> []"
    and "validate_dates (request_dates request)
           (int (length (request_register_numbers request))) = Inr (Some err, w)"
  shows "\<exists>warnings request'. validate_schedule_request request = Inr ([err], warnings, request')"
  using assms
  by (simp add: validate_schedule_request_def Let_def validate_exam_metadata_def
        validate_register_numbers_def validate_labs_def validate_internal_examiners_def
        validate_external_examiners_def append_opt_def split: prod.splits option.splits)

text \<open>
  Claim C8, as amended. \<^verbatim>\<open>validate_schedule_request\<close> checks the dates only when the
  request has at least one register number. What holds: for every request with at least
  one register number and a date token that is malformed after stripping, the validator
  returns, and its errors are exactly the one error tagged \<^verbatim>\<open>dates\<close> that names the first
  such token of the list: every token before it is well-formed after stripping.
\<close>

theorem malformed_date_reported:
  assumes "request_register_numbers request \<noteq> []"
    and "d \<in> set (request_dates request)"
    and "malformed (strip d)"
  shows "\<exists>pre d0 post. request_dates request = pre @ d0 # post
           \<and> (\<forall>t\<in>set pre. \<not> malformed (strip t))
           \<and> malformed (strip d0)
           \<and> (\<exists>warnings request'.
                 validate_schedule_request request
                   = Inr ([invalid_date_error d0], warnings, request'))"
proof -
  from first_invalid_date_first [OF assms(2) assms(3)] obtain pre d0 post where
    d0: "request_dates request = pre @ d0 # post" "\<forall>t\<in>set pre. \<not> malformed (strip t)"
        "malformed (strip d0)"
        "first_invalid_date (request_dates request) = Some (invalid_date_error d0)"
    by blast
  have ne: "request_dates request \<noteq> []" using assms(2) by auto
  have "validate_dates (request_dates request)
               (int (length (request_register_numbers request)))
          = Inr (Some (invalid_date_error d0), None)"
    using ne d0(4) by (simp add: validate_dates_def)
  from validate_schedule_request_dates [OF assms(1) this] d0(1) d0(2) d0(3)
  show ?thesis by blast
qed

text \<open>An instance of the theorem: one candidate, a good date and two malformed tokens; the
  error names the first of the two.\<close>

theorem malformed_date_reported_witness:
  "malformed (strip ''aa'') \<and> malformed (strip ''bb'')
   \<and> (\<exists>warnings request'.
         validate_schedule_request (sample_request [''R0''] [''01-01-25'', ''aa'', ''bb''])
           = Inr ([invalid_date_error ''aa''], warnings, request'))"
proof -
  let ?rq = "sample_request [''R0''] [''01-01-25'', ''aa'', ''bb'']"
  have r: "request_register_numbers ?rq \<noteq> []" by (simp add: sample_request_def)
  have m: "''bb'' \<in> set (request_dates ?rq)" by (simp add: sample_request_def)
  have a: "malformed (strip ''aa'')" by code_simp
  have b: "malformed (strip ''bb'')" by code_simp
  have g: "\<not> malformed (strip ''01-01-25'')" by code_simp
  from malformed_date_reported [OF r m b] obtain pre d0 post where
    d0: "request_dates ?rq = pre @ d0 # post" "\<forall>t\<in>set pre. \<not> malformed (strip t)"
        "malformed (strip d0)"
        "\<exists>warnings request'. validate_schedule_request ?rq
                   = Inr ([invalid_date_error d0], warnings, request')"
    by blast
  from d0(1) have e: "[''01-01-25'', ''aa'', ''bb''] = pre @ d0 # post"
    by (simp add: sample_request_def)
  have "d0 = ''aa''"
  proof (cases pre)
    case Nil
    with e d0(3) g show ?thesis by simp
  next
    case (Cons x pre')
    with e have x: "x = ''01-01-25''" and e': "[''aa'', ''bb''] = pre' @ d0 # post" by simp_all
    show ?thesis
    proof (cases pre')
      case Nil
      with e' show ?thesis by simp
    next
      case (Cons y pre'')
      with e' have "y = ''aa''" by simp
      with Cons \<open>pre = x # pre'\<close> d0(2) a show ?thesis by simp
    qed
  qed
  with d0(4) a b show ?thesis by simp
qed

text \<open>
  Claim C8 as stated fails: a request with no register number and a malformed date gets
  the error tagged \<^verbatim>\<open>register_numbers\<close> only; no error is tagged \<^verbatim>\<open>dates\<close>.
\<close>

theorem malformed_date_unreported_without_candidates:
  "malformed (strip ''15/01/25'')
   \<and> error_fields (validate_schedule_request (sample_request [] [''15/01/25'']))
       = Inr [''register_numbers'']"
  by code_simp

section \<open>The date sorter\<close>

text \<open>\<^verbatim>\<open>strip\<close> removes the no-break space and NEXT LINE as well as the ASCII blanks.\<close>

lemma strip_no_break_space: "strip (''01-01-25'' @ [CHR 0xA0]) = ''01-01-25''"
  by code_simp

lemma strip_next_line: "strip (CHR 0x85 # ''01-01-25'') = ''01-01-25''"
  by code_simp

lemma digit_val_le: "digit_val c = Some v \<Longrightarrow> v \<le> 9"
  by (auto simp: digit_val_def Let_def split: if_splits)

lemma py_int_two_digits:
  assumes "is_digit a" "is_digit b"
  shows "py_int [a, b] \<le> 99"
proof -
  from assms obtain u v where uv: "digit_val a = Some u" "digit_val b = Some v"
    by (auto simp: is_digit_def)
  from digit_val_le [OF uv(1)] digit_val_le [OF uv(2)] uv show ?thesis
    by (simp add: py_int_def)
qed

lemma strptime_match_year:
  assumes "(d, m, y, r) \<in> set (strptime_match s)"
  shows "\<exists>a b. y = [a, b] \<and> is_digit a \<and> is_digit b"
proof -
  from assms obtain r4 where "(y, r) \<in> set (re_y r4)"
    by (auto simp: strptime_match_def)
  then show ?thesis
    by (auto simp: re_y_def two_chars_def split: list.splits if_splits)
qed

lemma strptime_Inr:
  assumes "strptime s = Inr dt"
  shows "\<exists>y m d. dt = (y, m, d, 0) \<and> y \<le> 2099"
proof -
  from assms obtain d m y ms where
    mt: "strptime_match s = (d, m, y, []) # ms"
    by (auto simp: strptime_def split: list.splits if_splits)
  then have "(d, m, y, []) \<in> set (strptime_match s)" by simp
  from strptime_match_year [OF this] obtain a b where
    "y = [a, b]" "is_digit a" "is_digit b" by blast
  then have "py_int y \<le> 99" using py_int_two_digits by simp
  with assms mt show ?thesis
    by (auto simp: strptime_def Let_def split: if_splits)
qed

lemma date_key_less_max: "\<not> malformed t \<Longrightarrow> date_key t < datetime_max"
proof -
  assume "\<not> malformed t"
  then obtain dt where dt: "strptime t = Inr dt"
    by (cases "strptime t") (auto simp: malformed_def)
  from strptime_Inr [OF dt] obtain y m d where "dt = (y, m, d, 0)" "y \<le> 2099" by blast
  with dt show ?thesis
    by (simp add: date_key_def datetime_max_def less_prod_def)
qed

lemma date_key_malformed: "malformed t \<Longrightarrow> date_key t = datetime_max"
  by (cases "strptime t") (auto simp: malformed_def date_key_def)

lemma malformed_iff: "malformed t \<longleftrightarrow> \<not> date_key t < datetime_max"
  using date_key_less_max [of t] date_key_malformed [of t] by auto

lemma date_key_projr: "\<not> malformed t \<Longrightarrow> date_key t = projr (strptime t)"
  by (cases "strptime t") (auto simp: malformed_def date_key_def)

lemma insort_key_decorated:
  "insort_key fst (k y, y) (map (\<lambda>x. (k x, x)) ws) = map (\<lambda>x. (k x, x)) (insort_key k y ws)"
  by (induction ws) simp_all

lemma sort_key_decorated:
  "sort_key fst (map (\<lambda>x. (k x, x)) ys) = map (\<lambda>x. (k x, x)) (sort_key k ys)"
  by (induction ys) (simp_all add: insort_key_decorated)

lemma parse_dates_sort_key: "parse_dates ds = sort_key date_key (map strip ds)"
proof -
  have "map (\<lambda>date_str. case strptime (strip date_str) of
                Inr dt \<Rightarrow> (dt, strip date_str)
              | Inl e \<Rightarrow> (datetime_max, strip date_str)) ds
        = map (\<lambda>x. (date_key x, x)) (map strip ds)"
    by (simp add: date_key_def split: sum.splits)
  then have "map snd (sort_key fst (map (\<lambda>date_str. case strptime (strip date_str) of
                Inr dt \<Rightarrow> (dt, strip date_str)
              | Inl e \<Rightarrow> (datetime_max, strip date_str)) ds))
        = sort_key date_key (map strip ds)"
    by (simp only: sort_key_decorated) (simp add: comp_def)
  then show ?thesis
    by (cases "ds = []") (simp_all only: parse_dates_def Let_def if_True if_False, simp)
qed

lemma sorted_split_below:
  "sorted (map k ys) \<Longrightarrow>
   ys = filter (\<lambda>t. k t < (M::'b::linorder)) ys @ filter (\<lambda>t. \<not> k t < M) ys"
proof (induction ys)
  case Nil
  then show ?case by simp
next
  case (Cons y ys)
  show ?case
  proof (cases "k y < M")
    case True
    with Cons show ?thesis by simp
  next
    case False
    with Cons.prems have "\<forall>t\<in>set ys. \<not> k t < M" by auto
    then have "filter (\<lambda>t. k t < M) ys = []" "filter (\<lambda>t. \<not> k t < M) ys = ys"
      by (simp_all add: filter_empty_conv)
    with False show ?thesis by simp
  qed
qed

lemma parse_dates_split:
  "parse_dates ds
     = sort_key date_key (filter (\<lambda>t. \<not> malformed t) (map strip ds))
       @ filter malformed (map strip ds)"
proof -
  let ?xs = "map strip ds"
  have "sort_key date_key ?xs
          = filter (\<lambda>t. date_key t < datetime_max) (sort_key date_key ?xs)
            @ filter (\<lambda>t. \<not> date_key t < datetime_max) (sort_key date_key ?xs)"
    by (rule sorted_split_below) simp
  also have "filter (\<lambda>t. date_key t < datetime_max) (sort_key date_key ?xs)
               = sort_key date_key (filter (\<lambda>t. \<not> malformed t) ?xs)"
    by (simp add: filter_sort malformed_iff)
  also have "filter (\<lambda>t. \<not> date_key t < datetime_max) (sort_key date_key ?xs)
               = filter (\<lambda>t. date_key t = datetime_max) (sort_key date_key ?xs)"
    using date_key_malformed malformed_iff by (intro filter_cong) auto
  also have "\<dots> = filter (\<lambda>t. date_key t = datetime_max) ?xs"
    by (rule sort_key_stable)
  also have "\<dots> = filter malformed ?xs"
    using date_key_malformed malformed_iff by (intro filter_cong) auto
  finally show ?thesis by (simp add: parse_dates_sort_key)
qed

text \<open>
  Claim C6, as amended. \<^verbatim>\<open>parse_dates\<close> strips every token before it parses and returns
  it, so the output holds the stripped tokens. What holds: the output has the multiset of
  the stripped tokens; it is the well-formed stripped tokens in chronologically ascending
  order followed by the malformed ones in their original relative order; and when no
  token has surrounding whitespace the output is a permutation of the input.
\<close>

theorem parse_dates_sorted_stripped:
  "mset (parse_dates ds) = mset (map strip ds)
   \<and> (\<exists>good. parse_dates ds = good @ filter malformed (map strip ds)
         \<and> (\<forall>t\<in>set good. \<not> malformed t)
         \<and> sorted (map (\<lambda>t. projr (strptime t)) good))
   \<and> ((\<forall>t\<in>set ds. strip t = t) \<longrightarrow> mset (parse_dates ds) = mset ds)"
proof (intro conjI impI)
  show m: "mset (parse_dates ds) = mset (map strip ds)"
    by (simp add: parse_dates_sort_key)
  let ?good = "sort_key date_key (filter (\<lambda>t. \<not> malformed t) (map strip ds))"
  have g: "\<forall>t\<in>set ?good. \<not> malformed t" by simp
  then have "map (\<lambda>t. projr (strptime t)) ?good = map date_key ?good"
    by (intro map_cong) (simp_all add: date_key_projr)
  moreover have "sorted (map date_key ?good)" by (rule sorted_sort_key)
  ultimately have "sorted (map (\<lambda>t. projr (strptime t)) ?good)" by (simp only:)
  with g parse_dates_split [of ds]
  show "\<exists>good. parse_dates ds = good @ filter malformed (map strip ds)
         \<and> (\<forall>t\<in>set good. \<not> malformed t)
         \<and> sorted (map (\<lambda>t. projr (strptime t)) good)"
    by blast
  assume "\<forall>t\<in>set ds. strip t = t"
  then have "map strip ds = ds" by (simp add: map_idI)
  with m show "mset (parse_dates ds) = mset ds" by simp
qed

text \<open>An instance of the theorem: two dates out of order and one malformed token between them.\<close>

theorem parse_dates_sorted_stripped_witness:
  "parse_dates [''05-09-25'', ''soon'', ''03-09-24'']
     = [''03-09-24'', ''05-09-25''] @ [''soon'']
   \<and> mset (parse_dates [''05-09-25'', ''soon'', ''03-09-24''])
       = mset [''05-09-25'', ''soon'', ''03-09-24'']"
proof -
  have s: "\<forall>t\<in>set [''05-09-25'', ''soon'', ''03-09-24'']. strip t = t" by code_simp
  have p: "parse_dates [''05-09-25'', ''soon'', ''03-09-24'']
             = [''03-09-24'', ''05-09-25''] @ [''soon'']" by code_simp
  from parse_dates_sorted_stripped [of "[''05-09-25'', ''soon'', ''03-09-24'']"] s p show ?thesis by blast
qed

text \<open>
  Claim C6 as stated fails: a token with a trailing blank comes back without it, so the
  output is not the multiset of the input tokens.
\<close>

theorem parse_dates_changes_padded_token:
  "parse_dates [''05-09-25 ''] = [''05-09-25'']
   \<and> mset (parse_dates [''05-09-25 '']) \<noteq> mset [''05-09-25 '']"
proof -
  have p: "parse_dates [''05-09-25 ''] = [''05-09-25'']" by code_simp
  then show ?thesis by simp
qed

section \<open>The date selector\<close>

lemma well_formed_Inr: "well_formed d \<Longrightarrow> \<exists>dt. parse_date d = Inr dt"
  by (cases "parse_date d") (auto simp: well_formed_def)

lemma not_well_formed_Inl: "\<not> well_formed d \<Longrightarrow> \<exists>e. parse_date d = Inl e"
  by (cases "parse_date d") (auto simp: well_formed_def)

lemma parse_keys_Inr:
  "\<forall>d\<in>set ds. well_formed d \<Longrightarrow> \<exists>ks. parse_keys ds = Inr ks \<and> map snd ks = ds"
proof (induction ds)
  case Nil
  then show ?case by simp
next
  case (Cons d ds)
  then obtain dt ks where "parse_date d = Inr dt" "parse_keys ds = Inr ks" "map snd ks = ds"
    using well_formed_Inr [of d] by auto
  then show ?case by simp
qed

lemma parse_keys_Inl:
  "\<exists>d\<in>set ds. \<not> well_formed d \<Longrightarrow> \<exists>e. parse_keys ds = Inl e"
proof (induction ds)
  case Nil
  then show ?case by simp
next
  case (Cons d ds)
  show ?case
  proof (cases "well_formed d")
    case True
    with Cons obtain dt e where "parse_date d = Inr dt" "parse_keys ds = Inl e"
      using well_formed_Inr [of d] by auto
    then show ?thesis by simp
  next
    case False
    then show ?thesis using not_well_formed_Inl [of d] by auto
  qed
qed

lemma sorted_by_date_Inr:
  assumes "\<forall>d\<in>set ds. well_formed d"
  shows "\<exists>sorted_dates. sorted_by_date ds = Inr sorted_dates \<and> mset sorted_dates = mset ds"
proof -
  from parse_keys_Inr [OF assms] obtain ks where
    ks: "parse_keys ds = Inr ks" "map snd ks = ds" by blast
  have "mset (map snd (sort_key fst ks)) = mset (map snd ks)"
    by (simp only: mset_map mset_sort)
  with ks show ?thesis by (simp add: sorted_by_date_def)
qed

lemma sorted_by_date_Inl:
  "\<exists>d\<in>set ds. \<not> well_formed d \<Longrightarrow> \<exists>e. sorted_by_date ds = Inl e"
  using parse_keys_Inl [of ds] by (auto simp: sorted_by_date_def)

lemma date_diff_days_Inr:
  "well_formed a \<Longrightarrow> well_formed b \<Longrightarrow> \<exists>g. date_diff_days a b = Inr g"
  using well_formed_Inr [of a] well_formed_Inr [of b] by (auto simp: date_diff_days_def)

lemma gap_walk_Inr:
  assumes "\<forall>d\<in>set selected. well_formed d" "\<forall>d\<in>set rest. well_formed d" "selected \<noteq> []"
  shows "\<exists>sel. gap_walk r g selected rest = Inr sel
           \<and> mset sel \<subseteq># mset selected + mset rest
           \<and> (int (length selected) \<le> r \<longrightarrow> int (length sel) \<le> r)
           \<and> length selected \<le> length sel"
  using assms
proof (induction rest arbitrary: selected)
  case Nil
  then show ?case by simp
next
  case (Cons d rest)
  show ?case
  proof (cases "int (length selected) \<ge> r")
    case True
    then show ?thesis by simp
  next
    case False
    have wl: "well_formed (last selected)" using Cons.prems(1,3) by simp
    have wd: "well_formed d" using Cons.prems(2) by simp
    from date_diff_days_Inr [OF wl wd] obtain gap where
      gap: "date_diff_days (last selected) d = Inr gap" by blast
    have rest: "\<forall>d\<in>set rest. well_formed d" using Cons.prems(2) by simp
    show ?thesis
    proof (cases "gap \<ge> g")
      case True
      have a: "\<forall>x\<in>set (selected @ [d]). well_formed x" using Cons.prems(1) wd by simp
      from Cons.IH [OF a rest] obtain sel where
        "gap_walk r g (selected @ [d]) rest = Inr sel"
        "mset sel \<subseteq># mset (selected @ [d]) + mset rest"
        "int (length (selected @ [d])) \<le> r \<longrightarrow> int (length sel) \<le> r"
        "length (selected @ [d]) \<le> length sel"
        by auto
      with False True gap Cons.prems(3) show ?thesis
        by (intro exI [of _ sel]) (simp add: ac_simps)
    next
      case g: False
      from Cons.IH [OF Cons.prems(1) rest Cons.prems(3)] obtain sel where
        s: "gap_walk r g selected rest = Inr sel"
        "mset sel \<subseteq># mset selected + mset rest"
        "int (length selected) \<le> r \<longrightarrow> int (length sel) \<le> r"
        "length selected \<le> length sel"
        by auto
      have "mset selected + mset rest \<subseteq># mset selected + mset (d # rest)" by simp
      with s(2) have "mset sel \<subseteq># mset selected + mset (d # rest)"
        by (rule subset_mset.order_trans)
      with False g gap Cons.prems(3) s show ?thesis
        by (intro exI [of _ sel]) simp
    qed
  qed
qed

lemma consecutive_gaps_Inr:
  "\<forall>d\<in>set xs. well_formed d \<Longrightarrow> \<exists>gs. consecutive_gaps xs = Inr gs"
proof (induction xs rule: consecutive_gaps.induct)
  case (1 a b rest)
  then obtain g gs where "date_diff_days a b = Inr g" "consecutive_gaps (b # rest) = Inr gs"
    using date_diff_days_Inr [of a b] by auto
  then show ?case by simp
qed simp_all

lemma finish_selection_Inr:
  "\<forall>d\<in>set sel. well_formed d \<Longrightarrow> \<exists>msg. finish_selection sel n = Inr (sel, msg)"
  using consecutive_gaps_Inr [of sel] by (auto simp: finish_selection_def)

lemma mset_take_subset: "mset (take n xs) \<subseteq># mset xs"
  by (metis append_take_drop_id mset_append mset_subset_eq_add_left)

lemma slice_to_subset: "mset (slice_to xs k) \<subseteq># mset xs"
  by (simp add: slice_to_def mset_take_subset)

lemma slice_to_length:
  "0 \<le> k \<Longrightarrow> k \<le> int (length xs) \<Longrightarrow> int (length (slice_to xs k)) = k"
  by (simp add: slice_to_def)

lemma mset_subset_well_formed:
  "mset ys \<subseteq># mset xs \<Longrightarrow> \<forall>d\<in>set xs. well_formed d \<Longrightarrow> \<forall>d\<in>set ys. well_formed d"
  using set_mset_mono [of "mset ys" "mset xs"] by auto

lemma required_days_of_Inr:
  "\<bar>N\<bar> < 125 * (2 ^ 1024 - 2 ^ 970) \<Longrightarrow> required_days_of N = Inr (- ((- N) div 125))"
  by (simp add: required_days_of_def DAILY_CAPACITY_def STUDENTS_PER_LAB_def LABS_PER_DAY_def)

lemma required_days_of_Inl:
  "\<not> \<bar>N\<bar> < 125 * (2 ^ 1024 - 2 ^ 970) \<Longrightarrow> required_days_of N = Inl OverflowError"
  by (simp add: required_days_of_def DAILY_CAPACITY_def STUDENTS_PER_LAB_def LABS_PER_DAY_def)

lemma ceiling_div: "- ((- N) div 125) = (N + 124) div (125::int)"
  by arith

lemma select_optimal_dates_result:
  assumes wf: "\<forall>d\<in>set pool. well_formed d" and rd: "required_days_of N = Inr r"
  shows "\<exists>sel msg. select_optimal_dates pool N g = Inr (sel, msg)
           \<and> mset sel \<subseteq># mset pool
           \<and> (1 \<le> r \<and> r \<le> int (length pool) \<longrightarrow> int (length sel) = r)"
proof (cases "pool = [] \<or> r = 0")
  case True
  then show ?thesis using rd by (auto simp: select_optimal_dates_def)
next
  case False
  then have ne: "pool \<noteq> []" and r0: "r \<noteq> 0" by simp_all
  from sorted_by_date_Inr [OF wf] obtain sorted_dates where
    sd: "sorted_by_date pool = Inr sorted_dates" "mset sorted_dates = mset pool" by blast
  have len: "length sorted_dates = length pool" using sd(2) by (rule mset_eq_length)
  have swf: "\<forall>d\<in>set sorted_dates. well_formed d"
    using mset_subset_well_formed [OF _ wf, of sorted_dates] sd(2) by simp
  obtain d0 ds where cons: "sorted_dates = d0 # ds"
    using ne len by (cases sorted_dates) auto
  have unf: "select_optimal_dates pool N g =
     (if int (length sorted_dates) < r
      then Inr (sorted_dates, OnlyDatesAvailable (length sorted_dates) r N)
      else if r = 1 then Inr ([d0], SelectedOneDate N)
      else if g \<le> 1 then finish_selection (slice_to sorted_dates r) N
      else (case gap_walk r g [d0] ds of
              Inl e \<Rightarrow> Inl e
            | Inr selected \<Rightarrow>
                if int (length selected) < r
                then Inr (slice_to sorted_dates r,
                          GapConstraintRelaxed (length (slice_to sorted_dates r)))
                else finish_selection selected N))"
    using ne r0 rd sd(1) unfolding cons by (simp add: select_optimal_dates_def)
  have slice: "mset (slice_to sorted_dates r) \<subseteq># mset pool"
    using slice_to_subset [of sorted_dates r] sd(2) by simp
  have slice_wf: "\<forall>d\<in>set (slice_to sorted_dates r). well_formed d"
    using mset_subset_well_formed [OF slice wf] .
  have slice_len: "1 \<le> r \<and> r \<le> int (length pool) \<longrightarrow> int (length (slice_to sorted_dates r)) = r"
    using slice_to_length [of r sorted_dates] len by simp
  show ?thesis
  proof (cases "int (length sorted_dates) < r")
    case True
    then show ?thesis using unf sd(2) len by simp
  next
    case nlt: False
    show ?thesis
    proof (cases "r = 1")
      case True
      have "mset [d0] \<subseteq># mset sorted_dates" unfolding cons by simp
      then have "mset [d0] \<subseteq># mset pool" using sd(2) by simp
      then show ?thesis using unf nlt True by simp
    next
      case r1: False
      show ?thesis
      proof (cases "g \<le> 1")
        case True
        from finish_selection_Inr [OF slice_wf, of N] obtain msg where
          "finish_selection (slice_to sorted_dates r) N = Inr (slice_to sorted_dates r, msg)"
          by blast
        then show ?thesis using unf nlt r1 True slice slice_len by simp
      next
        case g1: False
        have a: "\<forall>d\<in>set [d0]. well_formed d" and b: "\<forall>d\<in>set ds. well_formed d"
          using swf cons by simp_all
        from gap_walk_Inr [OF a b, of r g] obtain selected where
          gw: "gap_walk r g [d0] ds = Inr selected"
              "mset selected \<subseteq># mset [d0] + mset ds"
              "int (length [d0]) \<le> r \<longrightarrow> int (length selected) \<le> r"
          by auto
        have sub: "mset selected \<subseteq># mset pool" using gw(2) sd(2) cons by simp
        show ?thesis
        proof (cases "int (length selected) < r")
          case True
          then show ?thesis using unf nlt r1 g1 gw(1) slice slice_len by simp
        next
          case False
          from finish_selection_Inr [OF mset_subset_well_formed [OF sub wf], of N] obtain msg where
            "finish_selection selected N = Inr (selected, msg)" by blast
          moreover have "1 \<le> r \<longrightarrow> int (length selected) = r"
            using gw(3) False by auto
          ultimately show ?thesis using unf nlt r1 g1 gw(1) False sub by simp
        qed
      qed
    qed
  qed
qed

text \<open>
  Claim C4. For a candidate count \<open>N \<ge> 1\<close>, any minimum gap and a pool of well-formed
  tokens with at least \<open>ceil(N/125)\<close> entries, \<^verbatim>\<open>select_optimal_dates\<close> returns exactly
  \<open>ceil(N/125) = (N + 124) div 125\<close> dates, each drawn from the pool (no date more often
  than the pool has it). The count is taken below \<open>125 * 2^47\<close>, the range in which the
  float quotient of the code has the exact ceiling; a pool of \<open>2^47\<close> tokens would be
  needed beyond it.
\<close>

theorem select_optimal_dates_count:
  assumes "1 \<le> N" and "N < 125 * 2 ^ 47"
    and "\<forall>d\<in>set pool. well_formed d"
    and "(N + 124) div 125 \<le> int (length pool)"
  shows "\<exists>sel msg. select_optimal_dates pool N g = Inr (sel, msg)
           \<and> int (length sel) = (N + 124) div 125
           \<and> set sel \<subseteq> set pool \<and> mset sel \<subseteq># mset pool"
proof -
  have "\<bar>N\<bar> < 125 * (2 ^ 1024 - 2 ^ 970)" using assms(1,2) by simp
  then have rd: "required_days_of N = Inr ((N + 124) div 125)"
    by (simp only: required_days_of_Inr ceiling_div)
  have r: "1 \<le> (N + 124) div 125" using assms(1) by simp
  from select_optimal_dates_result [OF assms(3) rd, of g] r assms(4) obtain sel msg where
    s: "select_optimal_dates pool N g = Inr (sel, msg)" "mset sel \<subseteq># mset pool"
       "int (length sel) = (N + 124) div 125"
    by auto
  from s(2) have "set sel \<subseteq> set pool"
    using set_mset_mono [of "mset sel" "mset pool"] by simp
  with s show ?thesis by simp
qed

text \<open>An instance of the theorem: 200 candidates, three dates, a gap of three days.\<close>

theorem select_optimal_dates_count_witness:
  "\<exists>sel msg. select_optimal_dates [''10-01-25'', ''11-01-25'', ''15-01-25''] 200 3 = Inr (sel, msg)
     \<and> int (length sel) = 2"
proof -
  have a: "(1::int) \<le> 200" "(200::int) < 125 * 2 ^ 47" by simp_all
  have w: "\<forall>d\<in>set [''10-01-25'', ''11-01-25'', ''15-01-25'']. well_formed d" by code_simp
  have l: "((200::int) + 124) div 125 \<le> int (length [''10-01-25'', ''11-01-25'', ''15-01-25''])"
    by simp
  from select_optimal_dates_count [OF a w l, of 3] show ?thesis by auto
qed

lemma strptime_Inl: "strptime s = Inl e \<Longrightarrow> e = ValueError"
  by (auto simp: strptime_def Let_def split: list.splits if_splits)

lemma parse_date_Inl: "parse_date d = Inl e \<Longrightarrow> e = ValueError"
  using strptime_Inl by (simp add: parse_date_def)

lemma parse_keys_ValueError: "parse_keys ds = Inl e \<Longrightarrow> e = ValueError"
  by (induction ds) (auto split: sum.splits dest: parse_date_Inl)

lemma sorted_by_date_ValueError:
  "\<exists>d\<in>set ds. \<not> well_formed d \<Longrightarrow> sorted_by_date ds = Inl ValueError"
proof -
  assume "\<exists>d\<in>set ds. \<not> well_formed d"
  from parse_keys_Inl [OF this] obtain e where e: "parse_keys ds = Inl e" by blast
  from parse_keys_ValueError [OF e] e show ?thesis by (simp add: sorted_by_date_def)
qed

text \<open>
  Claim C5, as amended. \<^verbatim>\<open>select_optimal_dates\<close> parses every token of the pool when it
  sorts, and \<^verbatim>\<open>parse_date\<close> raises on a malformed token. What holds: the function
  returns a pair exactly when the pool is empty, or the count is within the float range
  and either no day is required (\<open>-125 < N \<le> 0\<close>) or every token of the pool is
  well-formed; in particular it returns for every pool of well-formed tokens and every
  count within the float range. With a non-empty pool it raises \<^verbatim>\<open>OverflowError\<close> when
  the count is beyond the float range, and \<^verbatim>\<open>ValueError\<close> when the count is within the
  range, a day is required and a token of the pool is malformed.
\<close>

theorem select_optimal_dates_returns_iff:
  "((\<exists>res. select_optimal_dates pool N g = Inr res) \<longleftrightarrow>
      pool = []
      \<or> (\<bar>N\<bar> < 125 * (2 ^ 1024 - 2 ^ 970)
         \<and> ((- 125 < N \<and> N \<le> 0) \<or> (\<forall>d\<in>set pool. well_formed d))))
   \<and> (pool \<noteq> [] \<and> \<not> \<bar>N\<bar> < 125 * (2 ^ 1024 - 2 ^ 970) \<longrightarrow>
        select_optimal_dates pool N g = Inl OverflowError)
   \<and> (pool \<noteq> [] \<and> \<bar>N\<bar> < 125 * (2 ^ 1024 - 2 ^ 970) \<and> \<not> (- 125 < N \<and> N \<le> 0)
        \<and> (\<exists>d\<in>set pool. \<not> well_formed d) \<longrightarrow>
        select_optimal_dates pool N g = Inl ValueError)"
proof (cases "pool = []")
  case True
  then show ?thesis by (simp add: select_optimal_dates_def)
next
  case ne: False
  show ?thesis
  proof (cases "\<bar>N\<bar> < 125 * (2 ^ 1024 - 2 ^ 970)")
    case False
    from required_days_of_Inl [OF False] ne
    have "select_optimal_dates pool N g = Inl OverflowError"
      by (simp add: select_optimal_dates_def)
    with False ne show ?thesis by simp
  next
    case True
    note rd = required_days_of_Inr [OF True]
    have z: "- ((- N) div 125) = 0 \<longleftrightarrow> - 125 < N \<and> N \<le> 0" by arith
    show ?thesis
    proof (cases "- 125 < N \<and> N \<le> 0")
      case nd: True
      with z rd ne have "select_optimal_dates pool N g = Inr ([], NoStudentsToSchedule)"
        by (simp add: select_optimal_dates_def)
      with nd True ne show ?thesis by simp
    next
      case nz: False
      show ?thesis
      proof (cases "\<forall>d\<in>set pool. well_formed d")
        case wf: True
        from select_optimal_dates_result [OF wf rd, of g] obtain sel msg where
          "select_optimal_dates pool N g = Inr (sel, msg)" by blast
        with wf True ne nz show ?thesis by simp
      next
        case False
        then have "sorted_by_date pool = Inl ValueError"
          using sorted_by_date_ValueError [of pool] by simp
        with rd ne nz z have "select_optimal_dates pool N g = Inl ValueError"
          by (simp add: select_optimal_dates_def)
        with False ne nz True show ?thesis by simp
      qed
    qed
  qed
qed

text \<open>An instance of the theorem: 200 candidates, three well-formed dates.\<close>

theorem select_optimal_dates_returns_iff_witness:
  "\<exists>res. select_optimal_dates [''10-01-25'', ''11-01-25'', ''15-01-25''] 200 3 = Inr res"
proof -
  have w: "\<forall>d\<in>set [''10-01-25'', ''11-01-25'', ''15-01-25'']. well_formed d" by code_simp
  have b: "\<bar>200::int\<bar> < 125 * (2 ^ 1024 - 2 ^ 970)" by simp
  from select_optimal_dates_returns_iff [of "[''10-01-25'', ''11-01-25'', ''15-01-25'']" 200 3] w b show ?thesis by blast
qed

text \<open>
  Claim C5 as stated fails: with a token in year-first form in the pool the function
  raises \<^verbatim>\<open>ValueError\<close>.
\<close>

theorem select_optimal_dates_raises_on_malformed:
  "select_optimal_dates [''10-01-25'', ''2025-01-11''] 200 1 = Inl ValueError"
  by code_simp

section \<open>Cohort attribution\<close>

lemma count_batches_tally:
  "count_batches r2sb chunk counts = tally (cohort_pairs r2sb chunk) counts"
proof (induction chunk arbitrary: counts)
  case Nil
  then show ?case by (simp add: cohort_pairs_def map_filter_simps)
next
  case (Cons reg_no rest)
  then show ?case
    by (cases "map_of r2sb reg_no") (simp_all add: cohort_pairs_def map_filter_simps count_of_def)
qed

lemma count_of_update:
  "count_of (AList.update k v counts) p = (if p = k then v else count_of counts p)"
  by (simp add: count_of_def update_conv')

lemma count_of_tally:
  "count_of (tally ps counts) p = count_of counts p + count_list ps p"
  by (induction ps arbitrary: counts) (auto simp: count_of_update)

lemma distinct_tally:
  "distinct (map fst counts) \<Longrightarrow> distinct (map fst (tally ps counts))"
  by (induction ps arbitrary: counts) (simp_all add: distinct_update)

lemma keys_tally:
  "map fst (tally ps counts)
     = map fst counts @ filter (\<lambda>p. p \<notin> set (map fst counts)) (first_occurrences ps)"
proof (induction ps arbitrary: counts)
  case Nil
  then show ?case by simp
next
  case (Cons p ps)
  show ?case
  proof (cases "p \<in> set (map fst counts)")
    case True
    have "filter (\<lambda>q. q \<notin> set (map fst counts)) (filter (\<lambda>y. y \<noteq> p) (first_occurrences ps))
            = filter (\<lambda>q. q \<notin> set (map fst counts)) (first_occurrences ps)"
      using True by (auto intro: filter_cong)
    with True show ?thesis by (simp add: Cons.IH update_keys)
  next
    case False
    have "filter (\<lambda>q. q \<notin> set (map fst counts @ [p])) (first_occurrences ps)
            = filter (\<lambda>q. q \<notin> set (map fst counts)) (filter (\<lambda>y. y \<noteq> p) (first_occurrences ps))"
      by (auto intro: filter_cong)
    with False show ?thesis by (simp add: Cons.IH update_keys)
  qed
qed

lemma keys_tally_Nil: "map fst (tally ps []) = first_occurrences ps"
  by (simp add: keys_tally)

lemma set_first_occurrences: "set (first_occurrences ps) = set ps"
  by (induction ps) auto

lemma tally_entry:
  assumes "(p, c) \<in> set (tally ps [])"
  shows "c = count_list ps p" and "p \<in> set ps"
proof -
  have "distinct (map fst (tally ps []))" by (rule distinct_tally) simp
  with assms have "map_of (tally ps []) p = Some c" by simp
  then have h: "count_of (tally ps []) p = c" by (simp add: count_of_def)
  have z: "count_of [] p = 0" by (simp add: count_of_def)
  show "c = count_list ps p" using h z count_of_tally [of ps "[]" p] by simp
  from assms have "p \<in> set (map fst (tally ps []))" by force
  then show "p \<in> set ps" by (simp add: keys_tally_Nil set_first_occurrences)
qed

lemma tally_Nil_iff: "tally ps [] = [] \<longleftrightarrow> ps = []"
proof -
  have "tally ps [] = [] \<longleftrightarrow> map fst (tally ps []) = []" by simp
  also have "\<dots> \<longleftrightarrow> first_occurrences ps = []" by (simp only: keys_tally_Nil)
  also have "\<dots> \<longleftrightarrow> ps = []" by (cases ps) simp_all
  finally show ?thesis .
qed

lemma max_by_count_split:
  "\<exists>pre post. best # xs = pre @ max_by_count best xs # post
      \<and> (\<forall>x\<in>set pre. snd x < snd (max_by_count best xs))
      \<and> (\<forall>x\<in>set post. snd x \<le> snd (max_by_count best xs))"
proof (induction xs arbitrary: best)
  case Nil
  have "[best] = [] @ max_by_count best [] # []" by simp
  then show ?case by fastforce
next
  case (Cons x xs)
  show ?case
  proof (cases "snd x > snd best")
    case True
    then have m: "max_by_count best (x # xs) = max_by_count x xs" by simp
    from Cons.IH [of x] obtain pre post where
      s: "x # xs = pre @ max_by_count x xs # post"
         "\<forall>y\<in>set pre. snd y < snd (max_by_count x xs)"
         "\<forall>y\<in>set post. snd y \<le> snd (max_by_count x xs)"
      by blast
    have "snd x \<le> snd (max_by_count x xs)"
    proof (cases pre)
      case Nil
      with s(1) have "x = max_by_count x xs" by auto
      then show ?thesis by (metis order_refl)
    next
      case (Cons a pre')
      with s(1) s(2) show ?thesis by auto
    qed
    with True have lt: "snd best < snd (max_by_count x xs)" by simp
    have e: "best # x # xs = (best # pre) @ max_by_count x xs # post" using s(1) by simp
    have p: "\<forall>y\<in>set (best # pre). snd y < snd (max_by_count x xs)" using s(2) lt by simp
    show ?thesis unfolding m using e p s(3) by blast
  next
    case False
    then have m: "max_by_count best (x # xs) = max_by_count best xs" by simp
    from Cons.IH [of best] obtain pre post where
      s: "best # xs = pre @ max_by_count best xs # post"
         "\<forall>y\<in>set pre. snd y < snd (max_by_count best xs)"
         "\<forall>y\<in>set post. snd y \<le> snd (max_by_count best xs)"
      by blast
    show ?thesis
    proof (cases pre)
      case Nil
      with s(1) have b: "best = max_by_count best xs" "xs = post" by auto
      have e: "best # x # xs = [] @ max_by_count best xs # (x # post)" using b by auto
      have "snd x \<le> snd (max_by_count best xs)" using False b(1) by (metis not_less)
      then have p: "\<forall>y\<in>set (x # post). snd y \<le> snd (max_by_count best xs)"
        using s(3) by simp
      have q: "\<forall>y\<in>set ([] :: ('a \<times> nat) list). snd y < snd (max_by_count best xs)" by simp
      show ?thesis unfolding m using e p q by blast
    next
      case (Cons a pre')
      with s(1) have a: "a = best" "xs = pre' @ max_by_count best xs # post" by auto
      have "snd best < snd (max_by_count best xs)" using s(2) Cons a by simp
      with False have lt: "snd x < snd (max_by_count best xs)" by simp
      have e: "best # x # xs = (best # x # pre') @ max_by_count best xs # post"
        using a(2) by auto
      have p: "\<forall>y\<in>set (best # x # pre'). snd y < snd (max_by_count best xs)"
        using s(2) Cons a(1) lt by simp
      show ?thesis unfolding m using e p s(3) by blast
    qed
  qed
qed

lemma filter_eq_append_ConsD:
  "filter P ys = as @ b # bs \<Longrightarrow> \<exists>us vs. ys = us @ b # vs \<and> filter P us = as \<and> P b"
proof (induction ys arbitrary: as)
  case Nil
  then show ?case by simp
next
  case (Cons y ys)
  show ?case
  proof (cases "P y")
    case False
    with Cons.prems have "filter P ys = as @ b # bs" by simp
    from Cons.IH [OF this] obtain us vs where
      "ys = us @ b # vs" "filter P us = as" "P b" by blast
    with False have "y # ys = (y # us) @ b # vs \<and> filter P (y # us) = as \<and> P b" by simp
    then show ?thesis by blast
  next
    case True
    show ?thesis
    proof (cases as)
      case Nil
      with Cons.prems True have "y # ys = [] @ b # ys \<and> filter P [] = as \<and> P b" by simp
      then show ?thesis by blast
    next
      case (Cons a as')
      with Cons.prems True have "a = y" "filter P ys = as' @ b # bs" by simp_all
      from Cons.IH [OF this(2)] obtain us vs where
        "ys = us @ b # vs" "filter P us = as'" "P b" by blast
      with True Cons \<open>a = y\<close>
      have "y # ys = (y # us) @ b # vs \<and> filter P (y # us) = as \<and> P b" by simp
      then show ?thesis by blast
    qed
  qed
qed

lemma first_occurrences_split:
  "first_occurrences ps = kpre @ p # kpost \<Longrightarrow>
   \<exists>pre post. ps = pre @ p # post \<and> p \<notin> set pre \<and> set pre \<subseteq> set kpre"
proof (induction ps arbitrary: kpre kpost)
  case Nil
  then show ?case by simp
next
  case (Cons x xs)
  show ?case
  proof (cases kpre)
    case Nil
    with Cons.prems have "x # xs = [] @ p # xs \<and> p \<notin> set [] \<and> set [] \<subseteq> set kpre" by simp
    then show ?thesis by blast
  next
    case (Cons a kpre')
    with Cons.prems have a: "a = x"
      and f: "filter (\<lambda>y. y \<noteq> x) (first_occurrences xs) = kpre' @ p # kpost"
      by auto
    from filter_eq_append_ConsD [OF f] obtain us vs where
      uv: "first_occurrences xs = us @ p # vs" "filter (\<lambda>y. y \<noteq> x) us = kpre'" "p \<noteq> x"
      by blast
    from Cons.IH [OF uv(1)] obtain pre post where
      pp: "xs = pre @ p # post" "p \<notin> set pre" "set pre \<subseteq> set us" by blast
    have "set us \<subseteq> insert x (set kpre')" using uv(2) by auto
    with pp uv(3) Cons a
    have "x # xs = (x # pre) @ p # post \<and> p \<notin> set (x # pre) \<and> set (x # pre) \<subseteq> set kpre"
      by auto
    then show ?thesis by blast
  qed
qed

lemma cohort_pairs_empty_lookup: "cohort_pairs [] chunk = []"
  by (induction chunk) (simp_all add: cohort_pairs_def map_filter_simps)

lemma semester_batch_info_None:
  assumes "cohort_pairs r2sb chunk = []"
  shows "semester_batch_info r2sb chunk = (None, None)"
  using assms by (simp add: semester_batch_info_def count_batches_tally)

lemma semester_batch_info_Some:
  fixes r2sb chunk
  defines "ps \<equiv> cohort_pairs r2sb chunk"
  assumes ne: "ps \<noteq> []"
  shows "\<exists>pre p post. ps = pre @ p # post \<and> p \<notin> set pre
           \<and> (\<forall>q\<in>set pre. count_list ps q < count_list ps p)
           \<and> (\<forall>q\<in>set ps. count_list ps q \<le> count_list ps p)
           \<and> semester_batch_info r2sb chunk
               = (Some (fst p),
                  Some (if card (set ps) > 1
                        then join '', '' (sorted_list_of_set (snd ` set ps))
                        else snd p))"
proof -
  define bc where "bc = tally ps []"
  have r2sb: "r2sb \<noteq> []" using ne cohort_pairs_empty_lookup by (auto simp: ps_def)
  have bc_ne: "bc \<noteq> []" using ne by (simp add: bc_def tally_Nil_iff)
  then obtain item items where bc: "bc = item # items" by (cases bc) auto
  define m where "m = max_by_count item items"
  from max_by_count_split [of item items] obtain bpre bpost where
    sp: "bc = bpre @ m # bpost" "\<forall>x\<in>set bpre. snd x < snd m" "\<forall>x\<in>set bpost. snd x \<le> snd m"
    unfolding bc m_def by blast
  have all_le: "\<forall>x\<in>set bc. snd x \<le> snd m" using sp by auto
  have entry: "\<And>x. x \<in> set bc \<Longrightarrow> snd x = count_list ps (fst x) \<and> fst x \<in> set ps"
    using tally_entry [of _ _ ps] unfolding bc_def by (metis prod.collapse)
  have m_in: "m \<in> set bc" using sp(1) by simp
  have keys: "first_occurrences ps = map fst bc" by (simp add: bc_def keys_tally_Nil)
  then have "first_occurrences ps = map fst bpre @ fst m # map fst bpost"
    using sp(1) by simp
  from first_occurrences_split [OF this] obtain pre post where
    pp: "ps = pre @ fst m # post" "fst m \<notin> set pre" "set pre \<subseteq> set (map fst bpre)"
    by blast
  have cm: "snd m = count_list ps (fst m)" using entry [OF m_in] by simp
  have lt: "\<forall>q\<in>set pre. count_list ps q < count_list ps (fst m)"
  proof
    fix q assume "q \<in> set pre"
    with pp(3) obtain x where x: "x \<in> set bpre" "fst x = q" by auto
    then have "x \<in> set bc" using sp(1) by simp
    from entry [OF this] x sp(2) cm show "count_list ps q < count_list ps (fst m)" by auto
  qed
  have le: "\<forall>q\<in>set ps. count_list ps q \<le> count_list ps (fst m)"
  proof
    fix q assume "q \<in> set ps"
    then have "q \<in> set (map fst bc)" using keys set_first_occurrences [of ps] by simp
    then obtain x where x: "x \<in> set bc" "fst x = q" by auto
    from entry [OF x(1)] x all_le cm show "count_list ps q \<le> count_list ps (fst m)" by auto
  qed
  have dist: "distinct (map fst bc)" unfolding bc_def by (rule distinct_tally) simp
  have set_keys: "set (map fst bc) = set ps"
    using keys set_first_occurrences [of ps] by simp
  have "length bc = length (map fst bc)" by simp
  also have "\<dots> = card (set (map fst bc))" using dist by (simp only: distinct_card)
  finally have len: "length bc = card (set ps)" using set_keys by simp
  have "set (map (\<lambda>k. snd (fst k)) bc) = snd ` set (map fst bc)"
    by (simp add: image_image)
  then have labels: "sort (remdups (map (\<lambda>k. snd (fst k)) bc))
                      = sorted_list_of_set (snd ` set ps)"
    using set_keys by (simp only: sorted_list_of_set_sort_remdups [symmetric])
  have "semester_batch_info r2sb chunk
          = (Some (fst (fst m)),
             Some (if length bc > 1
                   then join '', '' (sort (remdups (map (\<lambda>k. snd (fst k)) bc)))
                   else snd (fst m)))"
    using r2sb bc
    by (simp add: semester_batch_info_def count_batches_tally ps_def [symmetric]
          bc_def [symmetric] m_def [symmetric] Let_def split: prod.splits)
  then have "semester_batch_info r2sb chunk
          = (Some (fst (fst m)),
             Some (if card (set ps) > 1
                   then join '', '' (sorted_list_of_set (snd ` set ps))
                   else snd (fst m)))"
    by (simp only: len labels)
  with pp(1) pp(2) lt le show ?thesis by blast
qed

lemma allocated_schedule_info:
  assumes "allocate_students regs dates labs ies ees sems dsub drn = Inr sch"
    and "s \<in> set sch"
  shows "\<exists>chunk. concat (map register_numbers (slots s)) = chunk
           \<and> (semester s, batch s) = semester_batch_info (build_reg_to_sem_batch sems) chunk"
proof -
  from allocate_students_chunks [OF assms(1)] obtain dcs where
    "list_all2 (chunk_schedule (build_reg_to_sem_batch sems)) sch dcs" by blast
  from chunk_schedules_member [OF this assms(2)] obtain dc where
    "chunk_schedule (build_reg_to_sem_batch sems) s dc" by blast
  then have sh: "slot_shape s (snd dc)"
    and eq: "(semester s, batch s) = semester_batch_info (build_reg_to_sem_batch sems) (snd dc)"
    by (simp_all add: chunk_schedule_def)
  show ?thesis using eq unfolding slot_shape_flatten [OF sh] by simp
qed

lemma sample_cohort_allocation:
  "allocate_students [''R1'', ''R0''] [''01-01-25''] [''Lab 1''] [] [] sample_semesters [] []
     = Inr [sample_cohort_schedule]"
  by code_simp

lemma sample_cohort_pairs:
  "schedule_pairs sample_semesters sample_cohort_schedule = [(''S2'', ''S2B''), (''S1'', ''S1A'')]"
  by code_simp

text \<open>
  Claim C7. For every schedule that \<^verbatim>\<open>allocate_students\<close> returns, with \<open>ps\<close> the cohort
  pairs of its candidates: when no candidate maps to a cohort, semester and batch are
  unset; otherwise the semester is that of a pair \<open>p\<close> whose tally is highest, and the
  batch is the label of \<open>p\<close> when \<open>p\<close> is the only pair present, and the comma-joined,
  sorted list of the distinct batch labels present when more than one pair is present.
\<close>

theorem cohort_fields_from_highest_tally:
  assumes "allocate_students regs dates labs ies ees sems dsub drn = Inr sch"
    and "s \<in> set sch"
  shows "(schedule_pairs sems s = [] \<longrightarrow> semester s = None \<and> batch s = None)
         \<and> (schedule_pairs sems s \<noteq> [] \<longrightarrow>
              (\<exists>p. p \<in> set (schedule_pairs sems s)
                 \<and> (\<forall>q\<in>set (schedule_pairs sems s).
                       count_list (schedule_pairs sems s) q \<le> count_list (schedule_pairs sems s) p)
                 \<and> semester s = Some (fst p)
                 \<and> batch s = Some (if card (set (schedule_pairs sems s)) > 1
                                    then join '', ''
                                           (sorted_list_of_set (snd ` set (schedule_pairs sems s)))
                                    else snd p)))"
proof -
  from allocated_schedule_info [OF assms] have
    info: "(semester s, batch s)
             = semester_batch_info (build_reg_to_sem_batch sems)
                 (concat (map register_numbers (slots s)))"
    by simp
  have a: "semester s = None \<and> batch s = None" if "schedule_pairs sems s = []"
  proof -
    from that have "cohort_pairs (build_reg_to_sem_batch sems)
                     (concat (map register_numbers (slots s))) = []"
      by (simp add: schedule_pairs_def)
    from semester_batch_info_None [OF this] info show ?thesis by simp
  qed
  have b: "\<exists>p. p \<in> set (schedule_pairs sems s)
                 \<and> (\<forall>q\<in>set (schedule_pairs sems s).
                       count_list (schedule_pairs sems s) q \<le> count_list (schedule_pairs sems s) p)
                 \<and> semester s = Some (fst p)
                 \<and> batch s = Some (if card (set (schedule_pairs sems s)) > 1
                                    then join '', ''
                                           (sorted_list_of_set (snd ` set (schedule_pairs sems s)))
                                    else snd p)"
    if "schedule_pairs sems s \<noteq> []"
  proof -
    from that have ne: "cohort_pairs (build_reg_to_sem_batch sems)
                     (concat (map register_numbers (slots s))) \<noteq> []"
      by (simp add: schedule_pairs_def)
    from semester_batch_info_Some [OF ne] info
    obtain pre p post where
      p: "schedule_pairs sems s = pre @ p # post"
         "\<forall>q\<in>set (schedule_pairs sems s).
             count_list (schedule_pairs sems s) q \<le> count_list (schedule_pairs sems s) p"
         "(semester s, batch s)
            = (Some (fst p),
               Some (if card (set (schedule_pairs sems s)) > 1
                     then join '', '' (sorted_list_of_set (snd ` set (schedule_pairs sems s)))
                     else snd p))"
      unfolding schedule_pairs_def [symmetric] by auto
    from p(1) have "p \<in> set (schedule_pairs sems s)" by simp
    moreover from p(3) have "semester s = Some (fst p)"
      and "batch s = Some (if card (set (schedule_pairs sems s)) > 1
                     then join '', '' (sorted_list_of_set (snd ` set (schedule_pairs sems s)))
                     else snd p)"
      by simp_all
    ultimately show ?thesis using p(2) by blast
  qed
  from a b show ?thesis by blast
qed

text \<open>An instance of the theorem: two candidates of two different cohorts in one chunk.\<close>

theorem cohort_fields_from_highest_tally_witness:
  "allocate_students [''R1'', ''R0''] [''01-01-25''] [''Lab 1''] [] [] sample_semesters [] []
     = Inr [sample_cohort_schedule]
   \<and> schedule_pairs sample_semesters sample_cohort_schedule \<noteq> []
   \<and> batch sample_cohort_schedule = Some ''S1A, S2B''"
proof -
  have m: "sample_cohort_schedule \<in> set [sample_cohort_schedule]" by simp
  have b: "batch sample_cohort_schedule = Some ''S1A, S2B''"
    by (simp add: sample_cohort_schedule_def)
  from cohort_fields_from_highest_tally [OF sample_cohort_allocation m] sample_cohort_allocation sample_cohort_pairs b
  show ?thesis by simp
qed

text \<open>
  Claim C10. When the cohort pairs of a schedule's candidates are not empty, the pair
  whose semester is written is the first one in chunk order among those with the highest
  tally: every pair that occurs before its first occurrence has a strictly lower tally,
  and no pair has a higher one.
\<close>

theorem tie_goes_to_first_encountered_pair:
  assumes "allocate_students regs dates labs ies ees sems dsub drn = Inr sch"
    and "s \<in> set sch"
    and "schedule_pairs sems s \<noteq> []"
  shows "\<exists>pre p post. schedule_pairs sems s = pre @ p # post
           \<and> p \<notin> set pre
           \<and> (\<forall>q\<in>set pre.
                 count_list (schedule_pairs sems s) q < count_list (schedule_pairs sems s) p)
           \<and> (\<forall>q\<in>set post.
                 count_list (schedule_pairs sems s) q \<le> count_list (schedule_pairs sems s) p)
           \<and> semester s = Some (fst p)"
proof -
  from allocated_schedule_info [OF assms(1,2)] have
    info: "(semester s, batch s)
             = semester_batch_info (build_reg_to_sem_batch sems)
                 (concat (map register_numbers (slots s)))"
    by simp
  from assms(3) have ne: "cohort_pairs (build_reg_to_sem_batch sems)
                     (concat (map register_numbers (slots s))) \<noteq> []"
    by (simp add: schedule_pairs_def)
  from semester_batch_info_Some [OF ne] info
  obtain pre p post where
    p: "schedule_pairs sems s = pre @ p # post" "p \<notin> set pre"
       "\<forall>q\<in>set pre. count_list (schedule_pairs sems s) q < count_list (schedule_pairs sems s) p"
       "\<forall>q\<in>set (schedule_pairs sems s).
           count_list (schedule_pairs sems s) q \<le> count_list (schedule_pairs sems s) p"
       "semester s = Some (fst p)"
    unfolding schedule_pairs_def [symmetric] by auto
  from p(1) p(4) have
    "\<forall>q\<in>set post. count_list (schedule_pairs sems s) q \<le> count_list (schedule_pairs sems s) p"
    by auto
  with p(1) p(2) p(3) p(5) show ?thesis by blast
qed

text \<open>An instance of the theorem: two cohorts with one candidate each; the first one in
  the chunk gives the semester.\<close>

theorem tie_goes_to_first_encountered_pair_witness:
  "allocate_students [''R1'', ''R0''] [''01-01-25''] [''Lab 1''] [] [] sample_semesters [] []
     = Inr [sample_cohort_schedule]
   \<and> schedule_pairs sample_semesters sample_cohort_schedule = [(''S2'', ''S2B''), (''S1'', ''S1A'')]
   \<and> semester sample_cohort_schedule = Some ''S2''"
proof -
  have m: "sample_cohort_schedule \<in> set [sample_cohort_schedule]" by simp
  have n: "schedule_pairs sample_semesters sample_cohort_schedule \<noteq> []"
    by (simp add: sample_cohort_pairs)
  have b: "semester sample_cohort_schedule = Some ''S2''"
    by (simp add: sample_cohort_schedule_def)
  from tie_goes_to_first_encountered_pair [OF sample_cohort_allocation m n] sample_cohort_allocation sample_cohort_pairs b
  show ?thesis by simp
qed

end
